theory Spec2Isabelle
  imports Main "HOL-Library.Word"
begin

section \<open>The flat file store of IonDB (src/dictionary/flat\_file/flat\_file.c)\<close>

text \<open>
  The store keeps fixed-width rows in one data file. Each row is one status byte, then
  \<open>key_size\<close> key bytes, then \<open>value_size\<close> value bytes. All four dictionary operations
  are built on one buffered linear scan (\<open>flat_file_scan\<close>) and one row writer
  (\<open>flat_file_write_row\<close>).

  The embedding is at the level of bytes: the data file is a list of bytes with a cursor,
  the scan buffer is a list of bytes, and every call of the C library that the source
  makes (\<open>fseek\<close>, \<open>ftell\<close>, \<open>fread\<close>, \<open>fwrite\<close>) is a function on the file that may fail.
  Every function of the source returns its error code together with the new state; a
  loop that the source does not bound is a partial function with value \<open>None\<close> when it
  does not end.

  \<open>flat_file_initialize\<close> and \<open>flat_file_destroy\<close> open, create, close and remove the file
  by its name; they are not part of the embedding. What initialisation establishes is
  recorded in the predicate \<open>well_formed\<close> below.
\<close>

subsection \<open>Types of the source\<close>

type_synonym byte = "8 word"

text \<open>
  \<open>ion_key_t\<close> and \<open>ion_value_t\<close> are untyped pointers; \<open>None\<close> is the \<open>NULL\<close> pointer and
  \<open>Some bs\<close> points at the bytes \<open>bs\<close>. \<open>ion_fpos_t\<close> is a signed file offset or row
  index (\<open>-1\<close> is used as a flag), modelled by an unbounded integer: offsets are assumed
  to stay below the overflow of the C type.
\<close>

type_synonym ion_key = "byte list option"
type_synonym ion_value = "byte list option"
type_synonym ion_fpos = int

datatype ion_err =
    err_ok
  | err_item_not_found
  | err_file_open_error
  | err_file_close_error
  | err_file_delete_error
  | err_file_read_error
  | err_file_bad_seek
  | err_file_hit_eof
  | err_file_incomplete_read
  | err_file_incomplete_write
  | err_dictionary_initialization_failed
  | err_status_uninitialized

record ion_status =
  error :: ion_err
  count :: int

text \<open>
  Modelled from the spec: the header that defines \<open>ION_STATUS_INITIALIZE\<close> is not among
  the sources; the operations only rely on its count being zero and its error not being
  \<open>err_ok\<close>.
\<close>

definition ION_STATUS_INITIALIZE :: ion_status where
  "ION_STATUS_INITIALIZE = \<lparr>error = err_status_uninitialized, count = 0\<rparr>"

text \<open>
  Modelled from the spec: the header that defines the two status bytes is not among the
  sources. The spec fixes the status at one byte with the two values EMPTY and OCCUPIED;
  the proofs below use only that the two bytes differ.
\<close>

definition FLAT_FILE_STATUS_EMPTY :: byte where
  "FLAT_FILE_STATUS_EMPTY = 0"

definition FLAT_FILE_STATUS_OCCUPIED :: byte where
  "FLAT_FILE_STATUS_OCCUPIED = 1"

record ion_flat_file_row =
  row_status :: byte
  key :: ion_key
  val :: ion_value

subsection \<open>The data file and the C library calls on it\<close>

text \<open>
  The stream behind \<open>data_file\<close>: the bytes of the file, the cursor, and a schedule of
  faults of the environment. Every library call takes the next entry of the schedule;
  \<open>True\<close> makes that call fail without effect on the bytes. An empty schedule means
  that no call fails any more.
\<close>

record ion_file =
  content :: "byte list"
  fpos :: nat
  faults :: "bool list"

definition next_fault :: "ion_file \<Rightarrow> bool \<times> ion_file" where
  "next_fault f = (case faults f of [] \<Rightarrow> (False, f) | b # bs \<Rightarrow> (b, f\<lparr>faults := bs\<rparr>))"

text \<open>\<open>fseek(f, off, SEEK_SET)\<close>: 0 on success; a negative offset is refused.\<close>

definition fseek_set :: "ion_file \<Rightarrow> int \<Rightarrow> int \<times> ion_file" where
  "fseek_set f off =
     (case next_fault f of (bad, f') \<Rightarrow>
        if bad \<or> off < 0 then (- 1, f') else (0, f'\<lparr>fpos := nat off\<rparr>))"

text \<open>\<open>fseek(f, 0, SEEK_END)\<close>.\<close>

definition fseek_end :: "ion_file \<Rightarrow> int \<times> ion_file" where
  "fseek_end f =
     (case next_fault f of (bad, f') \<Rightarrow>
        if bad then (- 1, f') else (0, f'\<lparr>fpos := length (content f')\<rparr>))"

definition ftell :: "ion_file \<Rightarrow> int \<times> ion_file" where
  "ftell f =
     (case next_fault f of (bad, f') \<Rightarrow>
        if bad then (- 1, f') else (int (fpos f'), f'))"

text \<open>
  \<open>fread(ptr, size, nmemb, f)\<close>: the number of complete items read, the bytes
  transferred to \<open>ptr\<close>, and the file, whose cursor has moved past the bytes transferred.
  Near the end of the file fewer items than asked for are read.
\<close>

definition fread :: "ion_file \<Rightarrow> nat \<Rightarrow> nat \<Rightarrow> nat \<times> byte list \<times> ion_file" where
  "fread f size_m nmemb =
     (case next_fault f of (bad, f') \<Rightarrow>
        if bad \<or> size_m = 0 \<or> nmemb = 0 then (0, [], f')
        else
          (let data = take (size_m * nmemb) (drop (fpos f') (content f'))
           in (length data div size_m, data, f'\<lparr>fpos := fpos f' + length data\<rparr>)))"

text \<open>Writing \<open>data\<close> at offset \<open>p\<close>; a gap past the end of the file reads as zero bytes.\<close>

definition write_at :: "byte list \<Rightarrow> nat \<Rightarrow> byte list \<Rightarrow> byte list" where
  "write_at bs p data =
     take p (bs @ replicate (p - length bs) 0) @ data @ drop (p + length data) bs"

text \<open>
  \<open>fwrite(ptr, size, 1, f)\<close>: the number of items written (1 or 0). By the C standard
  a call with size zero writes nothing and returns zero.
\<close>

definition fwrite :: "ion_file \<Rightarrow> byte list \<Rightarrow> nat \<Rightarrow> nat \<times> ion_file" where
  "fwrite f src size_m =
     (case next_fault f of (bad, f') \<Rightarrow>
        if bad \<or> size_m = 0 then (0, f')
        else
          (let data = take size_m src
           in (1, f'\<lparr>content := write_at (content f') (fpos f') data,
                     fpos := fpos f' + length data\<rparr>)))"

subsection \<open>The store\<close>

text \<open>
  The fields of \<open>ion_flat_file_t\<close> that are fixed when the store is initialised
  (\<open>ion_flat_file\<close>), and the two that the operations change: the data file and the
  scan buffer (\<open>flat_file_state\<close>). The sizes are natural numbers.
\<close>

record ion_flat_file =
  key_size :: nat
  value_size :: nat
  compare :: "ion_key \<Rightarrow> ion_key \<Rightarrow> nat \<Rightarrow> int"
  sorted_mode :: bool
  num_buffered :: nat
  start_of_data :: ion_fpos
  row_size :: nat

record flat_file_state =
  data_file :: ion_file
  buffer :: "byte list"

type_synonym ion_flat_file_predicate = "ion_flat_file \<Rightarrow> ion_flat_file_row \<Rightarrow> bool"

type_synonym scan_result = "ion_err \<times> ion_fpos \<times> ion_flat_file_row \<times> flat_file_state"

subsection \<open>flat\_file\_scan (lines 158 to 268 of the source)\<close>

text \<open>The bytes that \<open>fread\<close> transferred overwrite the front of the buffer.\<close>

definition store_bytes :: "byte list \<Rightarrow> byte list \<Rightarrow> byte list" where
  "store_bytes buf data = data @ drop (length data) buf"

text \<open>
  The row that the scan builds from record \<open>i\<close> of the buffer: the status byte at
  \<open>cur_rec\<close>, and pointers to the key and the value behind it, of which the users read
  \<open>key_size\<close> and \<open>value_size\<close> bytes.
\<close>

definition buffer_row :: "ion_flat_file \<Rightarrow> byte list \<Rightarrow> nat \<Rightarrow> ion_flat_file_row" where
  "buffer_row ff buf i =
     (let cur_rec = i * row_size ff
      in \<lparr>row_status = buf ! cur_rec,
          key = Some (take (key_size ff) (drop (cur_rec + 1) buf)),
          val = Some (take (value_size ff) (drop (cur_rec + 1 + key_size ff) buf))\<rparr>)"

text \<open>
  The inner \<open>for\<close> loop over the records of one batch, from record \<open>i\<close>: the index of
  the first record that satisfies the predicate, if any, and the row last written.
\<close>

function scan_batch ::
  "ion_flat_file \<Rightarrow> ion_flat_file_predicate \<Rightarrow> byte list \<Rightarrow> nat \<Rightarrow> nat \<Rightarrow>
   ion_flat_file_row \<Rightarrow> nat option \<times> ion_flat_file_row" where
  "scan_batch ff predicate buf num_records_to_process i row =
     (if i < num_records_to_process then
        (let row' = buffer_row ff buf i
         in if predicate ff row' then (Some i, row')
            else scan_batch ff predicate buf num_records_to_process (Suc i) row')
      else (None, row))"
  by pat_completeness auto
termination
  by (relation "measure (\<lambda>(ff, p, buf, n, i, row). n - i)") auto

declare scan_batch.simps [simp del]

text \<open>
  One pass through the body of the \<open>while\<close> loop: either the scan returns
  (\<open>Return\<close>), or the loop goes on with a new offset (\<open>Continue\<close>).

  The source divides offsets by \<open>row_size\<close> with the truncating division of C. At each
  of the three divisions the dividend is not negative (the range check before the loop,
  the clamp in the backward branch) and \<open>row_size\<close> is at least one, the status byte; there
  \<open>div\<close> is the same function.
\<close>

datatype scan_step_result =
    Return scan_result
  | Continue ion_fpos ion_flat_file_row flat_file_state

definition scan_step ::
  "ion_flat_file \<Rightarrow> ion_flat_file_predicate \<Rightarrow> bool \<Rightarrow> ion_fpos \<Rightarrow> ion_fpos \<Rightarrow>
   ion_flat_file_row \<Rightarrow> flat_file_state \<Rightarrow> scan_step_result" where
  "scan_step ff predicate scan_forwards cur_offset location row st =
     (case fseek_set (data_file st) cur_offset of (r1, f1) \<Rightarrow>
      if r1 \<noteq> 0 then Return (err_file_bad_seek, location, row, st\<lparr>data_file := f1\<rparr>)
      else if scan_forwards then
        (case fread f1 (row_size ff) (num_buffered ff) of (n, data, f2) \<Rightarrow>
         let buf = store_bytes (buffer st) data in
         if n = 0 then
           Return (err_file_incomplete_read, location, row, \<lparr>data_file = f2, buffer = buf\<rparr>)
         else
           (case ftell f2 of (cur', f3) \<Rightarrow>
            if cur' = - 1 then
              Return (err_file_read_error, location, row, \<lparr>data_file = f3, buffer = buf\<rparr>)
            else
              (case scan_batch ff predicate buf n 0 row of
                 (Some i, row') \<Rightarrow>
                   Return (err_ok,
                     (cur_offset - start_of_data ff) div int (row_size ff) + int i,
                     row', \<lparr>data_file = f3, buffer = buf\<rparr>)
               | (None, row') \<Rightarrow> Continue cur' row' \<lparr>data_file = f3, buffer = buf\<rparr>)))
      else
        (let moved = cur_offset - int (row_size ff * num_buffered ff);
             clamp = moved < start_of_data ff;
             num_records_to_process =
               (if clamp
                then int (num_buffered ff) - (start_of_data ff - moved) div int (row_size ff)
                else int (num_buffered ff));
             cur' = (if clamp then start_of_data ff else moved)
         in
         case fseek_set f1 cur' of (r2, f2) \<Rightarrow>
         if r2 \<noteq> 0 then Return (err_file_bad_seek, location, row, st\<lparr>data_file := f2\<rparr>)
         else
           (case fread f2 (row_size ff) (nat num_records_to_process) of (n, data, f3) \<Rightarrow>
            let buf = store_bytes (buffer st) data in
            if num_records_to_process \<noteq> int n then
              Return (err_file_incomplete_read, location, row,
                      \<lparr>data_file = f3, buffer = buf\<rparr>)
            else
              (case scan_batch ff predicate buf (nat num_records_to_process) 0 row of
                 (Some i, row') \<Rightarrow>
                   Return (err_ok,
                     (cur' - start_of_data ff) div int (row_size ff) + int i,
                     row', \<lparr>data_file = f3, buffer = buf\<rparr>)
               | (None, row') \<Rightarrow> Continue cur' row' \<lparr>data_file = f3, buffer = buf\<rparr>))))"

text \<open>
  The \<open>while (cur_offset != end_offset)\<close> loop. Nothing in the loop itself bounds the
  number of passes, so the loop is a partial function: \<open>None\<close> is the loop that never
  ends.
\<close>

partial_function (option) scan_loop ::
  "ion_flat_file \<Rightarrow> ion_flat_file_predicate \<Rightarrow> bool \<Rightarrow> ion_fpos \<Rightarrow> ion_fpos \<Rightarrow> ion_fpos \<Rightarrow>
   ion_fpos \<Rightarrow> ion_flat_file_row \<Rightarrow> flat_file_state \<Rightarrow> scan_result option" where
  "scan_loop ff predicate scan_forwards eof_pos end_offset cur_offset location row st =
     (if cur_offset \<noteq> end_offset then
        (case scan_step ff predicate scan_forwards cur_offset location row st of
           Return r \<Rightarrow> Some r
         | Continue cur' row' st' \<Rightarrow>
             scan_loop ff predicate scan_forwards eof_pos end_offset cur' location row' st')
      else
        Some (err_file_hit_eof,
              (eof_pos - start_of_data ff) div int (row_size ff), row, st))"

declare scan_loop.simps [code]

definition flat_file_scan ::
  "ion_flat_file \<Rightarrow> flat_file_state \<Rightarrow> ion_fpos \<Rightarrow> ion_fpos \<Rightarrow> ion_flat_file_row \<Rightarrow> bool \<Rightarrow>
   ion_flat_file_predicate \<Rightarrow> scan_result option" where
  "flat_file_scan ff st start_location location row scan_forwards predicate =
     (case fseek_end (data_file st) of (r1, f1) \<Rightarrow>
      if r1 \<noteq> 0 then Some (err_file_bad_seek, location, row, st\<lparr>data_file := f1\<rparr>)
      else
        (case ftell f1 of (eof_pos, f2) \<Rightarrow>
         if eof_pos = - 1 then Some (err_file_read_error, location, row, st\<lparr>data_file := f2\<rparr>)
         else
           (let end_offset = (if scan_forwards then eof_pos else start_of_data ff);
                cur_offset =
                  (if start_location = - 1
                   then (if scan_forwards then start_of_data ff else eof_pos)
                   else start_location * int (row_size ff))
            in
            if cur_offset > eof_pos \<or> cur_offset < start_of_data ff then
              Some (err_file_read_error, location, row, st\<lparr>data_file := f2\<rparr>)
            else
              scan_loop ff predicate scan_forwards eof_pos end_offset cur_offset
                location row (st\<lparr>data_file := f2\<rparr>))))"

subsection \<open>The predicates (lines 274 to 300)\<close>

text \<open>
  The variadic arguments of a predicate are given to it before it is handed to the
  scan: \<open>flat_file_predicate_key_match\<close> takes its one argument, the target key, first.
\<close>

definition flat_file_predicate_empty :: ion_flat_file_predicate where
  "flat_file_predicate_empty ff row \<longleftrightarrow> FLAT_FILE_STATUS_EMPTY = row_status row"

definition flat_file_predicate_key_match :: "ion_key \<Rightarrow> ion_flat_file_predicate" where
  "flat_file_predicate_key_match target_key ff row \<longleftrightarrow>
     FLAT_FILE_STATUS_OCCUPIED = row_status row \<and>
     0 = compare ff target_key (key row) (key_size ff)"

subsection \<open>flat\_file\_write\_row (lines 318 to 341)\<close>

text \<open>
  The status byte is written always, the key and the value only when their pointer is
  not \<open>NULL\<close>; the three writes follow one another without a seek in between.
\<close>

definition flat_file_write_row ::
  "ion_flat_file \<Rightarrow> flat_file_state \<Rightarrow> ion_fpos \<Rightarrow> ion_flat_file_row \<Rightarrow>
   ion_err \<times> flat_file_state" where
  "flat_file_write_row ff st location row =
     (case fseek_set (data_file st) (location * int (row_size ff)) of (r, f1) \<Rightarrow>
      if r \<noteq> 0 then (err_file_bad_seek, st\<lparr>data_file := f1\<rparr>)
      else
        (case fwrite f1 [row_status row] 1 of (w1, f2) \<Rightarrow>
         if w1 \<noteq> 1 then (err_file_incomplete_write, st\<lparr>data_file := f2\<rparr>)
         else
           (case (case key row of None \<Rightarrow> (1, f2)
                  | Some k \<Rightarrow> fwrite f2 k (key_size ff)) of (w2, f3) \<Rightarrow>
            if w2 \<noteq> 1 then (err_file_incomplete_write, st\<lparr>data_file := f3\<rparr>)
            else
              (case (case val row of None \<Rightarrow> (1, f3)
                     | Some v \<Rightarrow> fwrite f3 v (value_size ff)) of (w3, f4) \<Rightarrow>
               if w3 \<noteq> 1 then (err_file_incomplete_write, st\<lparr>data_file := f4\<rparr>)
               else (err_ok, st\<lparr>data_file := f4\<rparr>)))))"

subsection \<open>The four operations (lines 343 to 485)\<close>

text \<open>
  The local \<open>row\<close> of an operation is not initialised in the source; the scan writes
  it before anything reads it. The model starts it with null pointers.
\<close>

definition uninitialized_row :: ion_flat_file_row where
  "uninitialized_row = \<lparr>row_status = 0, key = None, val = None\<rparr>"

definition flat_file_insert ::
  "ion_flat_file \<Rightarrow> flat_file_state \<Rightarrow> ion_key \<Rightarrow> ion_value \<Rightarrow>
   (ion_status \<times> flat_file_state) option" where
  "flat_file_insert ff st k v =
     (let status = ION_STATUS_INITIALIZE in
      case flat_file_scan ff st (- 1) (- 1) uninitialized_row True flat_file_predicate_empty of
        None \<Rightarrow> None
      | Some (err, insert_loc, row, st1) \<Rightarrow>
          if err_ok \<noteq> err \<and> err_file_hit_eof \<noteq> err then Some (status\<lparr>error := err\<rparr>, st1)
          else
            (case flat_file_write_row ff st1 insert_loc
                    \<lparr>row_status = FLAT_FILE_STATUS_OCCUPIED, key = k, val = v\<rparr> of
               (err', st2) \<Rightarrow>
                 if err_ok \<noteq> err' then Some (status\<lparr>error := err'\<rparr>, st2)
                 else Some (status\<lparr>error := err_ok, count := 1\<rparr>, st2)))"

text \<open>
  \<open>memcpy(value, row.value, value_size)\<close>: the caller's buffer \<open>dst\<close> after the copy.
\<close>

definition memcpy :: "byte list \<Rightarrow> ion_value \<Rightarrow> nat \<Rightarrow> byte list" where
  "memcpy dst src n = (case src of None \<Rightarrow> dst | Some bs \<Rightarrow> take n bs @ drop n dst)"

definition flat_file_get ::
  "ion_flat_file \<Rightarrow> flat_file_state \<Rightarrow> ion_key \<Rightarrow> byte list \<Rightarrow>
   (ion_status \<times> byte list \<times> flat_file_state) option" where
  "flat_file_get ff st k v =
     (let status = ION_STATUS_INITIALIZE in
      if \<not> sorted_mode ff then
        (case flat_file_scan ff st (- 1) (- 1) uninitialized_row True
                (flat_file_predicate_key_match k) of
           None \<Rightarrow> None
         | Some (err, found_loc, row, st1) \<Rightarrow>
             if err_ok \<noteq> err then
               Some (status\<lparr>error :=
                       (if err_file_hit_eof = err then err_item_not_found else err)\<rparr>, v, st1)
             else
               Some (status\<lparr>error := err_ok, count := 1\<rparr>,
                     memcpy v (val row) (value_size ff), st1))
      else Some (status, v, st))"

text \<open>
  The \<open>while\<close> loop of \<open>flat_file_delete\<close>: the result of \<open>flat_file_write_row\<close> is
  dropped, as in the source. The loop yields the error that ended it.
\<close>

partial_function (option) delete_loop ::
  "ion_flat_file \<Rightarrow> ion_key \<Rightarrow> ion_fpos \<Rightarrow> ion_flat_file_row \<Rightarrow> ion_status \<Rightarrow>
   flat_file_state \<Rightarrow> (ion_err \<times> ion_status \<times> flat_file_state) option" where
  "delete_loop ff k loc row status st =
     (case flat_file_scan ff st loc loc row True (flat_file_predicate_key_match k) of
        None \<Rightarrow> None
      | Some (err, loc', row', st1) \<Rightarrow>
          if err_ok = err then
            (case flat_file_write_row ff st1 loc'
                    \<lparr>row_status = FLAT_FILE_STATUS_EMPTY, key = None, val = None\<rparr> of
               (err', st2) \<Rightarrow>
                 delete_loop ff k (loc' + 1) row' (status\<lparr>count := count status + 1\<rparr>) st2)
          else Some (err, status, st1))"

declare delete_loop.simps [code]

definition flat_file_delete ::
  "ion_flat_file \<Rightarrow> flat_file_state \<Rightarrow> ion_key \<Rightarrow> (ion_status \<times> flat_file_state) option" where
  "flat_file_delete ff st k =
     (let status = ION_STATUS_INITIALIZE in
      if \<not> sorted_mode ff then
        (case delete_loop ff k (- 1) uninitialized_row status st of
           None \<Rightarrow> None
         | Some (err, status1, st1) \<Rightarrow>
             (let status2 = status1\<lparr>error := err_ok\<rparr> in
              if err = err_file_hit_eof \<and> count status2 = 0 then
                Some (status2\<lparr>error := err_item_not_found\<rparr>, st1)
              else if err \<noteq> err_file_hit_eof then Some (status2\<lparr>error := err\<rparr>, st1)
              else Some (status2, st1)))
      else Some (status, st))"

text \<open>The \<open>while\<close> loop of \<open>flat_file_update\<close>, which writes the row anew.\<close>

partial_function (option) update_loop ::
  "ion_flat_file \<Rightarrow> ion_key \<Rightarrow> ion_value \<Rightarrow> ion_fpos \<Rightarrow> ion_flat_file_row \<Rightarrow> ion_status \<Rightarrow>
   flat_file_state \<Rightarrow> (ion_err \<times> ion_status \<times> flat_file_state) option" where
  "update_loop ff k v loc row status st =
     (case flat_file_scan ff st loc loc row True (flat_file_predicate_key_match k) of
        None \<Rightarrow> None
      | Some (err, loc', row', st1) \<Rightarrow>
          if err_ok = err then
            (case flat_file_write_row ff st1 loc'
                    \<lparr>row_status = FLAT_FILE_STATUS_OCCUPIED, key = k, val = v\<rparr> of
               (err', st2) \<Rightarrow>
                 update_loop ff k v (loc' + 1) row' (status\<lparr>count := count status + 1\<rparr>) st2)
          else Some (err, status, st1))"

declare update_loop.simps [code]

definition flat_file_update ::
  "ion_flat_file \<Rightarrow> flat_file_state \<Rightarrow> ion_key \<Rightarrow> ion_value \<Rightarrow>
   (ion_status \<times> flat_file_state) option" where
  "flat_file_update ff st k v =
     (let status = ION_STATUS_INITIALIZE in
      if \<not> sorted_mode ff then
        (case update_loop ff k v (- 1) uninitialized_row status st of
           None \<Rightarrow> None
         | Some (err, status1, st1) \<Rightarrow>
             (let status2 = status1\<lparr>error := err_ok\<rparr> in
              if err = err_file_hit_eof \<and> count status2 = 0 then flat_file_insert ff st1 k v
              else if err \<noteq> err_file_hit_eof then Some (status2\<lparr>error := err\<rparr>, st1)
              else Some (status2, st1)))
      else Some (status, st))"

section \<open>Well-formed stores and the rows of the file\<close>

text \<open>
  What \<open>flat_file_initialize\<close> sets up and the operations keep: the row is the status
  byte, the key and the value; at least one row is buffered; the data starts at offset
  zero (the position of a freshly opened file); sorted mode is off; and the file is a
  whole number of rows. Initialisation stores the sizes of keys and values as they are
  given: nothing here says that they are positive, and a theorem that needs a key or a
  value of at least one byte says so itself.
\<close>

definition well_formed :: "ion_flat_file \<Rightarrow> flat_file_state \<Rightarrow> bool" where
  "well_formed ff st \<longleftrightarrow>
     row_size ff = 1 + key_size ff + value_size ff \<and>
     0 < num_buffered ff \<and> start_of_data ff = 0 \<and> \<not> sorted_mode ff \<and>
     row_size ff dvd length (content (data_file st))"

text \<open>No call of the C library fails from this state on.\<close>

definition fault_free :: "flat_file_state \<Rightarrow> bool" where
  "fault_free st \<longleftrightarrow> faults (data_file st) = []"

definition num_rows :: "ion_flat_file \<Rightarrow> flat_file_state \<Rightarrow> nat" where
  "num_rows ff st = length (content (data_file st)) div row_size ff"

text \<open>Row \<open>i\<close> of the data file, read at byte offset \<open>i * row_size\<close>.\<close>

definition file_row :: "ion_flat_file \<Rightarrow> flat_file_state \<Rightarrow> nat \<Rightarrow> ion_flat_file_row" where
  "file_row ff st i = buffer_row ff (content (data_file st)) i"

text \<open>Row \<open>i\<close> is occupied and the comparator of the store reports its key equal to \<open>k\<close>.\<close>

definition key_matches :: "ion_flat_file \<Rightarrow> flat_file_state \<Rightarrow> ion_key \<Rightarrow> nat \<Rightarrow> bool" where
  "key_matches ff st k i \<longleftrightarrow>
     row_status (file_row ff st i) = FLAT_FILE_STATUS_OCCUPIED \<and>
     compare ff k (key (file_row ff st i)) (key_size ff) = 0"

definition row_empty :: "ion_flat_file \<Rightarrow> flat_file_state \<Rightarrow> nat \<Rightarrow> bool" where
  "row_empty ff st i \<longleftrightarrow> row_status (file_row ff st i) = FLAT_FILE_STATUS_EMPTY"

text \<open>The value bytes and the key bytes that row \<open>i\<close> of the data file holds.\<close>

definition row_value_bytes :: "ion_flat_file \<Rightarrow> flat_file_state \<Rightarrow> nat \<Rightarrow> byte list" where
  "row_value_bytes ff st i =
     take (value_size ff) (drop (i * row_size ff + 1 + key_size ff) (content (data_file st)))"

definition row_key_bytes :: "ion_flat_file \<Rightarrow> flat_file_state \<Rightarrow> nat \<Rightarrow> byte list" where
  "row_key_bytes ff st i =
     take (key_size ff) (drop (i * row_size ff + 1) (content (data_file st)))"

text \<open>
  What a scan without faults keeps: the bytes of the file, the absence of faults, and the
  buffer behind its first \<open>L\<close> bytes.
\<close>

definition scan_keeps :: "nat \<Rightarrow> flat_file_state \<Rightarrow> flat_file_state \<Rightarrow> bool" where
  "scan_keeps L st st' \<longleftrightarrow>
     content (data_file st') = content (data_file st) \<and>
     faults (data_file st') = [] \<and>
     drop L (buffer st') = drop L (buffer st)"

text \<open>The indices of the rows that match \<open>k\<close>, in ascending order.\<close>

definition matching_rows :: "ion_flat_file \<Rightarrow> flat_file_state \<Rightarrow> ion_key \<Rightarrow> nat list" where
  "matching_rows ff st k = filter (key_matches ff st k) [0..<num_rows ff st]"

text \<open>
  The rows that a scan from \<open>start\<close> examines when nothing matches: forwards the rows
  from the start to the end of the file, backwards the rows before the start. The flag
  \<open>-1\<close> stands for the first row (forwards) or the end of the file (backwards).
\<close>

definition scanned :: "ion_flat_file \<Rightarrow> flat_file_state \<Rightarrow> ion_fpos \<Rightarrow> bool \<Rightarrow> nat \<Rightarrow> bool" where
  "scanned ff st start fw j \<longleftrightarrow>
     (if fw then (if start = - 1 then 0 else nat start) \<le> j \<and> j < num_rows ff st
      else j < (if start = - 1 then num_rows ff st else nat start))"

subsection \<open>An example store\<close>

text \<open>
  Keys and values of one byte, two rows per batch, equality of the first \<open>key_size\<close>
  bytes as comparator, and four rows: key 5 with value 7, an empty row that once held
  key 9, key 5 with value 8, key 6 with value 4.
\<close>

definition ff_ex :: ion_flat_file where
  "ff_ex = \<lparr>key_size = 1, value_size = 1,
            compare = (\<lambda>a b n. if map_option (take n) a = map_option (take n) b then 0 else 1),
            sorted_mode = False, num_buffered = 2, start_of_data = 0, row_size = 3\<rparr>"

definition st_ex :: flat_file_state where
  "st_ex = \<lparr>data_file = \<lparr>content = [1, 5, 7, 0, 9, 9, 1, 5, 8, 1, 6, 4], fpos = 0, faults = []\<rparr>,
            buffer = replicate 6 0\<rparr>"

text \<open>A second state of the example store: two occupied rows and no empty one.\<close>

definition st_full :: flat_file_state where
  "st_full = \<lparr>data_file = \<lparr>content = [1, 5, 7, 1, 6, 4], fpos = 0, faults = []\<rparr>,
              buffer = replicate 6 0\<rparr>"

text \<open>A third state: two occupied rows with the same key 5, values 7 and 8.\<close>

definition st_dup :: flat_file_state where
  "st_dup = \<lparr>data_file = \<lparr>content = [1, 5, 7, 1, 5, 8], fpos = 0, faults = []\<rparr>,
             buffer = replicate 6 0\<rparr>"

text \<open>The example store with a buffer of one row.\<close>

definition ff_ex1 :: ion_flat_file where
  "ff_ex1 = ff_ex\<lparr>num_buffered := 1\<rparr>"

text \<open>
  The state \<open>st_dup\<close> in an environment where the library call number \<open>n + 1\<close> fails
  and all others succeed. In Delete of key 5 the thirteenth call is the \<open>fseek\<close> of the
  second \<open>flat_file_write_row\<close>; in Update of key 5 that is the fifteenth call.
\<close>

definition st_dup_failing :: "nat \<Rightarrow> flat_file_state" where
  "st_dup_failing n =
     st_dup\<lparr>data_file := (data_file st_dup)\<lparr>faults := replicate n False @ [True]\<rparr>\<rparr>"

subsection \<open>A store of character-array keys\<close>

text \<open>
  The comparator is a parameter of the store. One that callers supply for character
  arrays compares like \<open>strncmp\<close>: byte by byte, up to \<open>n\<close> bytes, and no further than
  the first zero byte. Two keys of different bytes can so compare equal.
\<close>

fun strncmp :: "byte list \<Rightarrow> byte list \<Rightarrow> nat \<Rightarrow> int" where
  "strncmp (a # as) (b # bs) (Suc n) =
     (if a \<noteq> b then (if a < b then - 1 else 1)
      else if a = 0 then 0
      else strncmp as bs n)"
| "strncmp as bs n = 0"

definition compare_char_array :: "ion_key \<Rightarrow> ion_key \<Rightarrow> nat \<Rightarrow> int" where
  "compare_char_array first_key second_key n =
     (case (first_key, second_key) of
        (Some as, Some bs) \<Rightarrow> strncmp as bs n
      | _ \<Rightarrow> 1)"

text \<open>Keys of two bytes, values of one byte; one occupied row with key bytes 0, 1.\<close>

definition ff_str :: ion_flat_file where
  "ff_str = \<lparr>key_size = 2, value_size = 1, compare = compare_char_array,
             sorted_mode = False, num_buffered = 2, start_of_data = 0, row_size = 4\<rparr>"

definition st_str :: flat_file_state where
  "st_str = \<lparr>data_file = \<lparr>content = [1, 0, 1, 7], fpos = 0, faults = []\<rparr>,
             buffer = replicate 8 0\<rparr>"

subsection \<open>Stores with values or keys of no bytes\<close>

text \<open>
  A store with keys of one byte and values of no bytes, holding one empty row; and a
  store with keys of no bytes and values of one byte, holding one empty row.
\<close>

definition ff_v0 :: ion_flat_file where
  "ff_v0 = \<lparr>key_size = 1, value_size = 0,
            compare = (\<lambda>a b n. if map_option (take n) a = map_option (take n) b then 0 else 1),
            sorted_mode = False, num_buffered = 2, start_of_data = 0, row_size = 2\<rparr>"

definition st_v0 :: flat_file_state where
  "st_v0 = \<lparr>data_file = \<lparr>content = [0, 9], fpos = 0, faults = []\<rparr>, buffer = replicate 4 0\<rparr>"

definition ff_k0 :: ion_flat_file where
  "ff_k0 = \<lparr>key_size = 0, value_size = 1,
            compare = (\<lambda>a b n. if map_option (take n) a = map_option (take n) b then 0 else 1),
            sorted_mode = False, num_buffered = 2, start_of_data = 0, row_size = 2\<rparr>"

definition st_k0 :: flat_file_state where
  "st_k0 = \<lparr>data_file = \<lparr>content = [0, 9], fpos = 0, faults = []\<rparr>, buffer = replicate 4 0\<rparr>"


section \<open>Library calls without faults, one batch, the rows of a buffer\<close>

lemma next_fault_none: "faults f = [] \<Longrightarrow> next_fault f = (False, f)"
  by (simp add: next_fault_def)

lemma fseek_set_ok: "faults f = [] \<Longrightarrow> 0 \<le> off \<Longrightarrow> fseek_set f off = (0, f\<lparr>fpos := nat off\<rparr>)"
  by (simp add: fseek_set_def next_fault_none)

lemma fseek_end_ok: "faults f = [] \<Longrightarrow> fseek_end f = (0, f\<lparr>fpos := length (content f)\<rparr>)"
  by (simp add: fseek_end_def next_fault_none)

lemma ftell_ok: "faults f = [] \<Longrightarrow> ftell f = (int (fpos f), f)"
  by (simp add: ftell_def next_fault_none)

lemma fread_ok:
  "faults f = [] \<Longrightarrow> 0 < sz \<Longrightarrow> 0 < n \<Longrightarrow>
   fread f sz n =
     (length (take (sz * n) (drop (fpos f) (content f))) div sz,
      take (sz * n) (drop (fpos f) (content f)),
      f\<lparr>fpos := fpos f + length (take (sz * n) (drop (fpos f) (content f)))\<rparr>)"
  by (simp add: fread_def next_fault_none Let_def)

lemma fwrite_ok:
  "faults f = [] \<Longrightarrow> 0 < sz \<Longrightarrow>
   fwrite f src sz =
     (1, f\<lparr>content := write_at (content f) (fpos f) (take sz src),
            fpos := fpos f + length (take sz src)\<rparr>)"
  by (simp add: fwrite_def next_fault_none Let_def)

lemma scan_batch_none:
  "(\<And>j. i \<le> j \<Longrightarrow> j < n \<Longrightarrow> \<not> p ff (buffer_row ff buf j)) \<Longrightarrow>
   fst (scan_batch ff p buf n i row) = None"
proof (induction ff p buf n i row rule: scan_batch.induct)
  case (1 ff predicate buf n i row)
  show ?case
  proof (cases "i < n")
    case True
    with "1.prems" have np: "\<not> predicate ff (buffer_row ff buf i)" by simp
    have "fst (scan_batch ff predicate buf n (Suc i) (buffer_row ff buf i)) = None"
      using True np "1.prems" by (intro "1.IH") auto
    with True np show ?thesis by (subst scan_batch.simps) (simp add: Let_def)
  next
    case False
    then show ?thesis by (subst scan_batch.simps) simp
  qed
qed

lemma scan_batch_found:
  "i \<le> j \<Longrightarrow> j < n \<Longrightarrow> p ff (buffer_row ff buf j) \<Longrightarrow>
   (\<And>j'. i \<le> j' \<Longrightarrow> j' < j \<Longrightarrow> \<not> p ff (buffer_row ff buf j')) \<Longrightarrow>
   scan_batch ff p buf n i row = (Some j, buffer_row ff buf j)"
proof (induction ff p buf n i row rule: scan_batch.induct)
  case (1 ff predicate buf n i row)
  from "1.prems" have lt: "i < n" by simp
  show ?case
  proof (cases "predicate ff (buffer_row ff buf i)")
    case True
    with "1.prems"(1,4) have "i = j" by (metis le_neq_implies_less le_refl)
    with True lt show ?thesis by (subst scan_batch.simps) (simp add: Let_def)
  next
    case False
    with "1.prems" have "i \<noteq> j" by auto
    with "1.prems" have "Suc i \<le> j" by simp
    then have "scan_batch ff predicate buf n (Suc i) (buffer_row ff buf i) = (Some j, buffer_row ff buf j)"
      using lt False "1.prems" by (intro "1.IH") auto
    with lt False show ?thesis by (subst scan_batch.simps) (simp add: Let_def)
  qed
qed

text \<open>A row depends only on its own bytes.\<close>

lemma slice_eqI:
  assumes "a + n \<le> length xs" "b + n \<le> length ys"
    and "\<And>d. d < n \<Longrightarrow> xs ! (a + d) = ys ! (b + d)"
  shows "take n (drop a xs) = take n (drop b ys)"
  using assms by (intro nth_equalityI) auto

lemma buffer_row_eqI:
  assumes rs: "row_size ff = 1 + key_size ff + value_size ff"
    and lx: "i * row_size ff + row_size ff \<le> length xs"
    and ly: "j * row_size ff + row_size ff \<le> length ys"
    and eq: "\<And>d. d < row_size ff \<Longrightarrow> xs ! (i * row_size ff + d) = ys ! (j * row_size ff + d)"
  shows "buffer_row ff xs i = buffer_row ff ys j"
proof -
  let ?r = "row_size ff"
  have s: "xs ! (i * ?r) = ys ! (j * ?r)" using eq [of 0] rs by simp
  have k: "take (key_size ff) (drop (i * ?r + 1) xs) = take (key_size ff) (drop (j * ?r + 1) ys)"
  proof (rule slice_eqI)
    show "i * ?r + 1 + key_size ff \<le> length xs" using lx rs by simp
    show "j * ?r + 1 + key_size ff \<le> length ys" using ly rs by simp
    fix d assume "d < key_size ff"
    then show "xs ! (i * ?r + 1 + d) = ys ! (j * ?r + 1 + d)"
      using eq [of "1 + d"] rs by (simp add: add.assoc)
  qed
  have v: "take (value_size ff) (drop (i * ?r + 1 + key_size ff) xs)
         = take (value_size ff) (drop (j * ?r + 1 + key_size ff) ys)"
  proof (rule slice_eqI)
    show "i * ?r + 1 + key_size ff + value_size ff \<le> length xs" using lx rs by simp
    show "j * ?r + 1 + key_size ff + value_size ff \<le> length ys" using ly rs by simp
    fix d assume "d < value_size ff"
    then show "xs ! (i * ?r + 1 + key_size ff + d) = ys ! (j * ?r + 1 + key_size ff + d)"
      using eq [of "1 + key_size ff + d"] rs by (simp add: add.assoc)
  qed
  show ?thesis using s k v by (simp add: buffer_row_def Let_def)
qed

lemma rows_le: "i < n \<Longrightarrow> i * r + r \<le> n * (r::nat)"
proof -
  assume "i < n"
  then have "Suc i * r \<le> n * r" by (intro mult_le_mono1) simp
  then show ?thesis by simp
qed

lemma aligned_take:
  assumes len: "length bytes = m * r" and k: "k < m" and r: "0 < (r::nat)" and nb: "0 < nb"
  shows "take (r * nb) (drop (k * r) bytes) = take (min nb (m - k) * r) (drop (k * r) bytes)"
    and "length (take (r * nb) (drop (k * r) bytes)) = min nb (m - k) * r"
proof -
  have l: "length (drop (k * r) bytes) = (m - k) * r"
    using len by (simp add: diff_mult_distrib)
  show "take (r * nb) (drop (k * r) bytes) = take (min nb (m - k) * r) (drop (k * r) bytes)"
  proof (cases "nb \<le> m - k")
    case True
    then show ?thesis by (simp add: min_absorb1 mult.commute)
  next
    case False
    then have "(m - k) * r \<le> r * nb" by (simp add: mult.commute)
    with False l show ?thesis by (simp add: min_absorb2)
  qed
  show "length (take (r * nb) (drop (k * r) bytes)) = min nb (m - k) * r"
  proof (cases "nb \<le> m - k")
    case True
    then have "nb * r \<le> (m - k) * r" by (rule mult_le_mono1)
    with True l show ?thesis by (simp add: min_absorb1 mult.commute)
  next
    case False
    then have "(m - k) * r \<le> nb * r" by (intro mult_le_mono1) simp
    with False l show ?thesis by (simp add: min_absorb2 mult.commute)
  qed
qed

lemma buffer_row_store_bytes:
  assumes rs: "row_size ff = 1 + key_size ff + value_size ff"
    and len: "(k + n) * row_size ff \<le> length bytes" and i: "i < n"
  shows "buffer_row ff (store_bytes buf (take (n * row_size ff) (drop (k * row_size ff) bytes))) i
       = buffer_row ff bytes (k + i)"
proof (rule buffer_row_eqI [OF rs])
  let ?r = "row_size ff"
  let ?data = "take (n * ?r) (drop (k * ?r) bytes)"
  have ld: "length ?data = n * ?r" using len by (simp add: add_mult_distrib)
  have ir: "i * ?r + ?r \<le> n * ?r" using i by (rule rows_le)
  show "i * ?r + ?r \<le> length (store_bytes buf ?data)"
    using ir ld by (simp add: store_bytes_def)
  have "(k + i) * ?r + ?r \<le> (k + n) * ?r" using i by (intro rows_le) simp
  then show "(k + i) * ?r + ?r \<le> length bytes" using len by simp
  fix d assume d: "d < ?r"
  then have lt: "i * ?r + d < n * ?r" using ir by simp
  then have "store_bytes buf ?data ! (i * ?r + d) = ?data ! (i * ?r + d)"
    using ld by (simp add: store_bytes_def nth_append)
  also have "\<dots> = bytes ! (k * ?r + (i * ?r + d))"
    using lt len by (simp add: add_mult_distrib)
  finally show "store_bytes buf ?data ! (i * ?r + d) = bytes ! ((k + i) * ?r + d)"
    by (simp add: add_mult_distrib add.assoc)
qed

lemma scan_step_forward:
  assumes rs: "row_size ff = 1 + key_size ff + value_size ff"
    and nb: "0 < num_buffered ff" and sod: "start_of_data ff = 0"
    and ff: "faults (data_file st) = []"
    and len: "length (content (data_file st)) = m * row_size ff"
    and k: "k < m"
    and n_def: "n = min (num_buffered ff) (m - k)"
    and buf': "buf' = store_bytes (buffer st)
                   (take (n * row_size ff) (drop (k * row_size ff) (content (data_file st))))"
    and st': "st' = \<lparr>data_file = (data_file st)\<lparr>fpos := (k + n) * row_size ff\<rparr>, buffer = buf'\<rparr>"
  shows "scan_step ff p True (int (k * row_size ff)) loc row st =
     (case scan_batch ff p buf' n 0 row of
           (Some i, row') \<Rightarrow> Return (err_ok, int k + int i, row', st')
         | (None, row') \<Rightarrow> Continue (int ((k + n) * row_size ff)) row' st')"
proof -
  let ?r = "row_size ff"
  let ?f = "data_file st"
  have r: "0 < ?r" using rs by simp
  have n: "0 < n" using nb k by (simp add: n_def)
  let ?f1 = "?f\<lparr>fpos := k * ?r\<rparr>"
  have s1: "fseek_set ?f (int (k * ?r)) = (0, ?f1)"
    using ff by (simp add: fseek_set_ok del: of_nat_mult)
  have f1: "faults ?f1 = []" "content ?f1 = content ?f" "fpos ?f1 = k * ?r" using ff by simp_all
  note at = aligned_take [OF len k r nb]
  have s2: "fread ?f1 ?r (num_buffered ff) =
      (n, take (n * ?r) (drop (k * ?r) (content ?f)), ?f\<lparr>fpos := (k + n) * ?r\<rparr>)"
    using r nb n at by (simp add: fread_ok [OF f1(1) r nb] f1 add_mult_distrib n_def)
  have s3: "ftell (?f\<lparr>fpos := (k + n) * ?r\<rparr>) = (int ((k + n) * ?r), ?f\<lparr>fpos := (k + n) * ?r\<rparr>)"
    using ff by (simp add: ftell_ok)
  have d: "int (k * ?r) div int ?r = int k" using r by (simp flip: of_nat_mult zdiv_int)
  show ?thesis
    unfolding scan_step_def s1 using n
    by (simp add: s2 s3 Let_def sod d buf' st' split: prod.splits option.splits del: of_nat_mult of_nat_add)
qed

section \<open>The forward scan\<close>

lemma scan_loop_stop:
  "scan_loop ff p fw eof e e loc row st =
     Some (err_file_hit_eof, (eof - start_of_data ff) div int (row_size ff), row, st)"
  by (subst scan_loop.simps) simp

lemma scan_loop_return:
  "c \<noteq> e \<Longrightarrow> scan_step ff p fw c loc row st = Return r \<Longrightarrow>
   scan_loop ff p fw eof e c loc row st = Some r"
  by (subst scan_loop.simps) simp

lemma scan_loop_continue:
  "c \<noteq> e \<Longrightarrow> scan_step ff p fw c loc row st = Continue c' row' st' \<Longrightarrow>
   scan_loop ff p fw eof e c loc row st = scan_loop ff p fw eof e c' loc row' st'"
  by (subst scan_loop.simps) simp

lemma scan_keeps_refl: "faults (data_file st) = [] \<Longrightarrow> scan_keeps L st st"
  by (simp add: scan_keeps_def)

lemma scan_keeps_trans: "scan_keeps L a b \<Longrightarrow> scan_keeps L b c \<Longrightarrow> scan_keeps L a c"
  by (simp add: scan_keeps_def)

lemma drop_store_bytes: "length data \<le> L \<Longrightarrow> drop L (store_bytes buf data) = drop L buf"
  by (simp add: store_bytes_def)

lemma scan_loop_forward_batch:
  assumes rs: "row_size ff = 1 + key_size ff + value_size ff"
    and nb: "0 < num_buffered ff" and sod: "start_of_data ff = 0"
    and L: "num_buffered ff * row_size ff \<le> L \<or> m * row_size ff \<le> L"
    and ff: "faults (data_file st) = []"
    and len: "length (content (data_file st)) = m * row_size ff"
    and k: "k < m"
  shows "\<exists>n st1. 0 < n \<and> k + n \<le> m \<and> scan_keeps L st st1 \<and>
     (\<forall>i. k \<le> i \<longrightarrow> i < k + n \<longrightarrow> p ff (buffer_row ff (content (data_file st)) i) \<longrightarrow>
          (\<forall>j. k \<le> j \<longrightarrow> j < i \<longrightarrow> \<not> p ff (buffer_row ff (content (data_file st)) j)) \<longrightarrow>
          scan_loop ff p True (int (m * row_size ff)) (int (m * row_size ff))
            (int (k * row_size ff)) loc row st
          = Some (err_ok, int i, buffer_row ff (content (data_file st)) i, st1)) \<and>
     ((\<forall>j. k \<le> j \<longrightarrow> j < k + n \<longrightarrow> \<not> p ff (buffer_row ff (content (data_file st)) j)) \<longrightarrow>
      (\<exists>row1. scan_loop ff p True (int (m * row_size ff)) (int (m * row_size ff))
                 (int (k * row_size ff)) loc row st
             = scan_loop ff p True (int (m * row_size ff)) (int (m * row_size ff))
                 (int ((k + n) * row_size ff)) loc row1 st1))"
proof -
  let ?r = "row_size ff"
  let ?bytes = "content (data_file st)"
  let ?e = "int (m * ?r)"
  have r: "0 < ?r" using rs by simp
  define n where "n = min (num_buffered ff) (m - k)"
  define data where "data = take (n * ?r) (drop (k * ?r) ?bytes)"
  define buf' where "buf' = store_bytes (buffer st) data"
  define st1 where "st1 = \<lparr>data_file = (data_file st)\<lparr>fpos := (k + n) * ?r\<rparr>, buffer = buf'\<rparr>"
  have n: "0 < n" "k + n \<le> m" using nb k by (simp_all add: n_def)
  have step: "scan_step ff p True (int (k * ?r)) loc row st =
      (case scan_batch ff p buf' n 0 row of
           (Some i, row') \<Rightarrow> Return (err_ok, int k + int i, row', st1)
         | (None, row') \<Rightarrow> Continue (int ((k + n) * ?r)) row' st1)"
    by (rule scan_step_forward [OF rs nb sod ff len k n_def])
       (simp_all add: data_def buf'_def st1_def)
  have le: "(k + n) * ?r \<le> length ?bytes" using n len by simp
  have rows: "buffer_row ff buf' i = buffer_row ff ?bytes (k + i)" if "i < n" for i
    unfolding buf'_def data_def using that by (rule buffer_row_store_bytes [OF rs le])
  have ne: "int (k * ?r) \<noteq> ?e" using k r by simp
  have "length data \<le> L"
  proof -
    have a: "length data \<le> n * ?r" by (simp add: data_def)
    have b: "n * ?r \<le> num_buffered ff * ?r" by (intro mult_le_mono1) (simp add: n_def)
    have c: "n * ?r \<le> m * ?r" using n by (intro mult_le_mono1) simp
    from L show ?thesis
    proof
      assume "num_buffered ff * ?r \<le> L"
      with a b show ?thesis by linarith
    next
      assume "m * ?r \<le> L"
      with a c show ?thesis by linarith
    qed
  qed
  then have keep: "scan_keeps L st st1"
    using ff by (simp add: scan_keeps_def st1_def buf'_def drop_store_bytes)
  have found: "scan_loop ff p True ?e ?e (int (k * ?r)) loc row st
          = Some (err_ok, int i, buffer_row ff ?bytes i, st1)"
    if i: "k \<le> i" "i < k + n" and pi: "p ff (buffer_row ff ?bytes i)"
      and before: "\<forall>j. k \<le> j \<longrightarrow> j < i \<longrightarrow> \<not> p ff (buffer_row ff ?bytes j)" for i
  proof -
    have "scan_batch ff p buf' n 0 row = (Some (i - k), buffer_row ff buf' (i - k))"
    proof (rule scan_batch_found)
      show "0 \<le> i - k" by simp
      show "i - k < n" using i by simp
      show "p ff (buffer_row ff buf' (i - k))" using rows [of "i - k"] i pi by simp
      fix j' assume "0 \<le> j'" "j' < i - k"
      then show "\<not> p ff (buffer_row ff buf' j')"
        using rows [of j'] before i by simp
    qed
    moreover have "buffer_row ff buf' (i - k) = buffer_row ff ?bytes i"
      using rows [of "i - k"] i by simp
    moreover have "int k + int (i - k) = int i" using i by simp
    ultimately have "scan_step ff p True (int (k * ?r)) loc row st
        = Return (err_ok, int i, buffer_row ff ?bytes i, st1)"
      by (simp only: step prod.case option.case)
    then show ?thesis by (rule scan_loop_return [OF ne])
  qed
  have none: "\<exists>row1. scan_loop ff p True ?e ?e (int (k * ?r)) loc row st
             = scan_loop ff p True ?e ?e (int ((k + n) * ?r)) loc row1 st1"
    if no: "\<forall>j. k \<le> j \<longrightarrow> j < k + n \<longrightarrow> \<not> p ff (buffer_row ff ?bytes j)"
  proof -
    have "fst (scan_batch ff p buf' n 0 row) = None"
    proof (rule scan_batch_none)
      fix j assume "0 \<le> j" "j < n"
      then show "\<not> p ff (buffer_row ff buf' j)"
        using rows [of j] no by simp
    qed
    then obtain row1 where b: "scan_batch ff p buf' n 0 row = (None, row1)"
      by (cases "scan_batch ff p buf' n 0 row") auto
    have "scan_loop ff p True ?e ?e (int (k * ?r)) loc row st
        = scan_loop ff p True ?e ?e (int ((k + n) * ?r)) loc row1 st1"
      by (rule scan_loop_continue [OF ne]) (simp only: step b prod.case option.case)
    then show ?thesis ..
  qed
  show ?thesis
  proof (intro exI [of _ n] exI [of _ st1] conjI allI impI)
    show "0 < n" "k + n \<le> m" "scan_keeps L st st1" by (rule n keep)+
  next
    fix i
    assume "k \<le> i" "i < k + n" "p ff (buffer_row ff ?bytes i)"
      "\<forall>j. k \<le> j \<longrightarrow> j < i \<longrightarrow> \<not> p ff (buffer_row ff ?bytes j)"
    then show "scan_loop ff p True ?e ?e (int (k * ?r)) loc row st
          = Some (err_ok, int i, buffer_row ff ?bytes i, st1)" by (rule found)
  next
    assume "\<forall>j. k \<le> j \<longrightarrow> j < k + n \<longrightarrow> \<not> p ff (buffer_row ff ?bytes j)"
    then show "\<exists>row1. scan_loop ff p True ?e ?e (int (k * ?r)) loc row st
             = scan_loop ff p True ?e ?e (int ((k + n) * ?r)) loc row1 st1" by (rule none)
  qed
qed

lemma scan_keeps_content: "scan_keeps L st st' \<Longrightarrow> content (data_file st') = content (data_file st)"
  and scan_keeps_faults: "scan_keeps L st st' \<Longrightarrow> faults (data_file st') = []"
  by (simp_all add: scan_keeps_def)

lemma scan_loop_forward_none:
  assumes rs: "row_size ff = 1 + key_size ff + value_size ff"
    and nb: "0 < num_buffered ff" and sod: "start_of_data ff = 0"
    and L: "num_buffered ff * row_size ff \<le> L \<or> m * row_size ff \<le> L"
  shows "faults (data_file st) = [] \<Longrightarrow>
    length (content (data_file st)) = m * row_size ff \<Longrightarrow> k \<le> m \<Longrightarrow>
    (\<And>j. k \<le> j \<Longrightarrow> j < m \<Longrightarrow> \<not> p ff (buffer_row ff (content (data_file st)) j)) \<Longrightarrow>
    \<exists>row' st'. scan_loop ff p True (int (m * row_size ff)) (int (m * row_size ff))
                  (int (k * row_size ff)) loc row st
                = Some (err_file_hit_eof, int m, row', st') \<and> scan_keeps L st st'"
proof (induction "m - k" arbitrary: k row st rule: less_induct)
  case less
  let ?r = "row_size ff"
  let ?e = "int (m * ?r)"
  have r: "0 < ?r" using rs by simp
  show ?case
  proof (cases "k = m")
    case True
    have "?e div int ?r = int m" using r by (simp flip: of_nat_mult zdiv_int)
    then show ?thesis
      using True less.prems(1) by (simp add: scan_loop_stop sod scan_keeps_refl del: of_nat_mult)
  next
    case False
    with less.prems have k: "k < m" by simp
    from scan_loop_forward_batch [OF rs nb sod L less.prems(1,2) k, of p loc row]
    obtain n st1 where n: "0 < n" "k + n \<le> m" and keep: "scan_keeps L st st1"
      and none: "(\<forall>j. k \<le> j \<longrightarrow> j < k + n \<longrightarrow> \<not> p ff (buffer_row ff (content (data_file st)) j)) \<Longrightarrow>
        (\<exists>row1. scan_loop ff p True ?e ?e (int (k * ?r)) loc row st
             = scan_loop ff p True ?e ?e (int ((k + n) * ?r)) loc row1 st1)"
      by (elim exE conjE) blast
    have "\<forall>j. k \<le> j \<longrightarrow> j < k + n \<longrightarrow> \<not> p ff (buffer_row ff (content (data_file st)) j)"
      using less.prems(4) n by auto
    from none [OF this] obtain row1 where
      cont: "scan_loop ff p True ?e ?e (int (k * ?r)) loc row st
             = scan_loop ff p True ?e ?e (int ((k + n) * ?r)) loc row1 st1" ..
    note c1 = scan_keeps_content [OF keep] and f1 = scan_keeps_faults [OF keep]
    have "\<exists>row' st'. scan_loop ff p True ?e ?e (int ((k + n) * ?r)) loc row1 st1
               = Some (err_file_hit_eof, int m, row', st') \<and> scan_keeps L st1 st'"
    proof (rule less.hyps)
      show "m - (k + n) < m - k" using n k by simp
      show "faults (data_file st1) = []" by (rule f1)
      show "length (content (data_file st1)) = m * ?r" using c1 less.prems(2) by simp
      show "k + n \<le> m" by (rule n)
      fix j assume "k + n \<le> j" "j < m"
      then show "\<not> p ff (buffer_row ff (content (data_file st1)) j)"
        using less.prems(4) [of j] c1 by simp
    qed
    then obtain row' st' where
      res: "scan_loop ff p True ?e ?e (int ((k + n) * ?r)) loc row1 st1
             = Some (err_file_hit_eof, int m, row', st')" and keep': "scan_keeps L st1 st'"
      by blast
    from keep keep' have "scan_keeps L st st'" by (rule scan_keeps_trans)
    with cont res show ?thesis by auto
  qed
qed

lemma scan_loop_forward_found:
  assumes rs: "row_size ff = 1 + key_size ff + value_size ff"
    and nb: "0 < num_buffered ff" and sod: "start_of_data ff = 0"
    and L: "num_buffered ff * row_size ff \<le> L \<or> m * row_size ff \<le> L"
    and i: "i < m"
  shows "faults (data_file st) = [] \<Longrightarrow>
    length (content (data_file st)) = m * row_size ff \<Longrightarrow> k \<le> i \<Longrightarrow>
    p ff (buffer_row ff (content (data_file st)) i) \<Longrightarrow>
    (\<And>j. k \<le> j \<Longrightarrow> j < i \<Longrightarrow> \<not> p ff (buffer_row ff (content (data_file st)) j)) \<Longrightarrow>
    \<exists>st'. scan_loop ff p True (int (m * row_size ff)) (int (m * row_size ff))
                  (int (k * row_size ff)) loc row st
                = Some (err_ok, int i, buffer_row ff (content (data_file st)) i, st')
           \<and> scan_keeps L st st'"
proof (induction "i - k" arbitrary: k row st rule: less_induct)
  case less
  let ?r = "row_size ff"
  let ?e = "int (m * ?r)"
  let ?bytes = "content (data_file st)"
  have k: "k < m" using less.prems(3) i by simp
  from scan_loop_forward_batch [OF rs nb sod L less.prems(1,2) k, of p loc row]
  obtain n st1 where n: "0 < n" "k + n \<le> m" and keep: "scan_keeps L st st1"
    and found: "\<And>i. k \<le> i \<Longrightarrow> i < k + n \<Longrightarrow> p ff (buffer_row ff ?bytes i) \<Longrightarrow>
          (\<forall>j. k \<le> j \<longrightarrow> j < i \<longrightarrow> \<not> p ff (buffer_row ff ?bytes j)) \<Longrightarrow>
          scan_loop ff p True ?e ?e (int (k * ?r)) loc row st
          = Some (err_ok, int i, buffer_row ff ?bytes i, st1)"
    and none: "(\<forall>j. k \<le> j \<longrightarrow> j < k + n \<longrightarrow> \<not> p ff (buffer_row ff ?bytes j)) \<Longrightarrow>
      (\<exists>row1. scan_loop ff p True ?e ?e (int (k * ?r)) loc row st
             = scan_loop ff p True ?e ?e (int ((k + n) * ?r)) loc row1 st1)"
    by (elim exE conjE) blast
  note c1 = scan_keeps_content [OF keep] and f1 = scan_keeps_faults [OF keep]
  show ?case
  proof (cases "i < k + n")
    case True
    have "scan_loop ff p True ?e ?e (int (k * ?r)) loc row st
          = Some (err_ok, int i, buffer_row ff ?bytes i, st1)"
      using less.prems(3,4,5) True by (intro found) auto
    with keep show ?thesis by blast
  next
    case False
    then have ge: "k + n \<le> i" by simp
    have "\<forall>j. k \<le> j \<longrightarrow> j < k + n \<longrightarrow> \<not> p ff (buffer_row ff ?bytes j)"
      using less.prems(5) ge by auto
    from none [OF this] obtain row1 where
      cont: "scan_loop ff p True ?e ?e (int (k * ?r)) loc row st
             = scan_loop ff p True ?e ?e (int ((k + n) * ?r)) loc row1 st1" ..
    have "\<exists>st'. scan_loop ff p True ?e ?e (int ((k + n) * ?r)) loc row1 st1
               = Some (err_ok, int i, buffer_row ff (content (data_file st1)) i, st')
             \<and> scan_keeps L st1 st'"
    proof (rule less.hyps)
      show "i - (k + n) < i - k" using n ge by simp
      show "faults (data_file st1) = []" by (rule f1)
      show "length (content (data_file st1)) = m * ?r" using c1 less.prems(2) by simp
      show "k + n \<le> i" by (rule ge)
      show "p ff (buffer_row ff (content (data_file st1)) i)" using less.prems(4) c1 by simp
      fix j assume "k + n \<le> j" "j < i"
      then show "\<not> p ff (buffer_row ff (content (data_file st1)) j)"
        using less.prems(5) [of j] c1 by simp
    qed
    then obtain st' where
      res: "scan_loop ff p True ?e ?e (int ((k + n) * ?r)) loc row1 st1
             = Some (err_ok, int i, buffer_row ff ?bytes i, st')" and keep': "scan_keeps L st1 st'"
      using c1 by auto
    from keep keep' have "scan_keeps L st st'" by (rule scan_keeps_trans)
    with cont res show ?thesis by auto
  qed
qed

lemma flat_file_scan_steps:
  assumes "fseek_end (data_file st) = (0, f1)" and "ftell f1 = (E, f1)" and "E \<noteq> - 1"
    and "(if sl = - 1 then (if fw then start_of_data ff else E) else sl * int (row_size ff)) = cur"
    and "cur \<le> E" and "start_of_data ff \<le> cur"
  shows "flat_file_scan ff st sl loc row fw p =
     scan_loop ff p fw E (if fw then E else start_of_data ff) cur loc row (st\<lparr>data_file := f1\<rparr>)"
  using assms by (simp add: flat_file_scan_def Let_def)

lemma flat_file_scan_unfold:
  assumes ff: "faults (data_file st) = []"
    and len: "length (content (data_file st)) = m * row_size ff"
    and sod: "start_of_data ff = 0"
    and start: "sl = - 1 \<and> k = (if fw then 0 else m) \<or> sl = int k"
    and k: "k \<le> m"
    and st0: "st0 = st\<lparr>data_file := (data_file st)\<lparr>fpos := m * row_size ff\<rparr>\<rparr>"
  shows "flat_file_scan ff st sl loc row fw p =
     scan_loop ff p fw (int (m * row_size ff)) (if fw then int (m * row_size ff) else 0)
       (int (k * row_size ff)) loc row st0"
proof -
  let ?r = "row_size ff"
  let ?f = "data_file st"
  have s1: "fseek_end ?f = (0, ?f\<lparr>fpos := m * ?r\<rparr>)" using ff len by (simp add: fseek_end_ok)
  have s2: "ftell (?f\<lparr>fpos := m * ?r\<rparr>) = (int (m * ?r), ?f\<lparr>fpos := m * ?r\<rparr>)"
    using ff by (simp add: ftell_ok)
  have "k * ?r \<le> m * ?r" using k by (rule mult_le_mono1)
  then have le: "int (k * ?r) \<le> int (m * ?r)" by (simp only: of_nat_le_iff)
  have cur: "(if sl = - 1 then (if fw then start_of_data ff else int (m * ?r)) else sl * int ?r)
      = int (k * ?r)"
    using start sod by auto
  have ne: "int (m * ?r) \<noteq> - 1" by (simp del: of_nat_mult)
  have ge: "start_of_data ff \<le> int (k * ?r)" using sod by (simp del: of_nat_mult)
  show ?thesis
    using flat_file_scan_steps [OF s1 s2 ne cur le ge, of loc row p] by (simp only: sod st0)
qed

lemma scan_keeps_seek:
  "faults (data_file st) = [] \<Longrightarrow> scan_keeps L st (st\<lparr>data_file := (data_file st)\<lparr>fpos := x\<rparr>\<rparr>)"
  by (simp add: scan_keeps_def)

lemma flat_file_scan_forward_none:
  assumes rs: "row_size ff = 1 + key_size ff + value_size ff"
    and nb: "0 < num_buffered ff" and sod: "start_of_data ff = 0"
    and L: "num_buffered ff * row_size ff \<le> L \<or> m * row_size ff \<le> L"
    and ff: "faults (data_file st) = []"
    and len: "length (content (data_file st)) = m * row_size ff"
    and start: "sl = - 1 \<and> k = 0 \<or> sl = int k" and k: "k \<le> m"
    and no: "\<And>j. k \<le> j \<Longrightarrow> j < m \<Longrightarrow> \<not> p ff (buffer_row ff (content (data_file st)) j)"
  shows "\<exists>row' st'. flat_file_scan ff st sl loc row True p
                = Some (err_file_hit_eof, int m, row', st') \<and> scan_keeps L st st'"
proof -
  let ?r = "row_size ff"
  define st0 where "st0 = st\<lparr>data_file := (data_file st)\<lparr>fpos := m * ?r\<rparr>\<rparr>"
  have u: "flat_file_scan ff st sl loc row True p =
     scan_loop ff p True (int (m * ?r)) (int (m * ?r)) (int (k * ?r)) loc row st0"
    using flat_file_scan_unfold [OF ff len sod _ k st0_def, of sl True loc row p] start by simp
  have k0: "scan_keeps L st st0" unfolding st0_def using ff by (rule scan_keeps_seek)
  have "\<exists>row' st'. scan_loop ff p True (int (m * ?r)) (int (m * ?r)) (int (k * ?r)) loc row st0
                = Some (err_file_hit_eof, int m, row', st') \<and> scan_keeps L st0 st'"
    by (rule scan_loop_forward_none [OF rs nb sod L _ _ k])
       (use ff len no in \<open>simp_all add: st0_def\<close>)
  with u k0 show ?thesis by (metis scan_keeps_trans)
qed

lemma flat_file_scan_forward_found:
  assumes rs: "row_size ff = 1 + key_size ff + value_size ff"
    and nb: "0 < num_buffered ff" and sod: "start_of_data ff = 0"
    and L: "num_buffered ff * row_size ff \<le> L \<or> m * row_size ff \<le> L"
    and ff: "faults (data_file st) = []"
    and len: "length (content (data_file st)) = m * row_size ff"
    and start: "sl = - 1 \<and> k = 0 \<or> sl = int k" and k: "k \<le> i" and i: "i < m"
    and pi: "p ff (buffer_row ff (content (data_file st)) i)"
    and no: "\<And>j. k \<le> j \<Longrightarrow> j < i \<Longrightarrow> \<not> p ff (buffer_row ff (content (data_file st)) j)"
  shows "\<exists>st'. flat_file_scan ff st sl loc row True p
                = Some (err_ok, int i, buffer_row ff (content (data_file st)) i, st')
              \<and> scan_keeps L st st'"
proof -
  let ?r = "row_size ff"
  define st0 where "st0 = st\<lparr>data_file := (data_file st)\<lparr>fpos := m * ?r\<rparr>\<rparr>"
  have km: "k \<le> m" using k i by simp
  have u: "flat_file_scan ff st sl loc row True p =
     scan_loop ff p True (int (m * ?r)) (int (m * ?r)) (int (k * ?r)) loc row st0"
    using flat_file_scan_unfold [OF ff len sod _ km st0_def, of sl True loc row p] start by simp
  have k0: "scan_keeps L st st0" unfolding st0_def using ff by (rule scan_keeps_seek)
  have "\<exists>st'. scan_loop ff p True (int (m * ?r)) (int (m * ?r)) (int (k * ?r)) loc row st0
                = Some (err_ok, int i, buffer_row ff (content (data_file st0)) i, st')
              \<and> scan_keeps L st0 st'"
    by (rule scan_loop_forward_found [OF rs nb sod L i _ _ k])
       (use ff len pi no in \<open>simp_all add: st0_def\<close>)
  moreover have "content (data_file st0) = content (data_file st)" by (simp add: st0_def)
  ultimately show ?thesis using u k0 by (metis scan_keeps_trans)
qed

lemma store_bytes_same:
  "drop (length data) buf' = drop (length data) buf \<Longrightarrow> store_bytes buf' data = store_bytes buf data"
  by (simp add: store_bytes_def)

lemma scan_forward_same:
  assumes rs: "row_size ff = 1 + key_size ff + value_size ff"
    and nb: "0 < num_buffered ff" and sod: "start_of_data ff = 0"
    and ff: "faults (data_file st) = []" and ff': "faults (data_file st') = []"
    and c: "content (data_file st') = content (data_file st)"
    and len: "length (content (data_file st)) = m * row_size ff"
    and b: "drop (min (num_buffered ff) m * row_size ff) (buffer st')
          = drop (min (num_buffered ff) m * row_size ff) (buffer st)"
  shows "flat_file_scan ff st' (- 1) loc row True p = flat_file_scan ff st (- 1) loc row True p"
proof -
  let ?r = "row_size ff"
  let ?e = "int (m * ?r)"
  define k where "k = (0::nat)"
  define st0 where "st0 = st\<lparr>data_file := (data_file st)\<lparr>fpos := m * ?r\<rparr>\<rparr>"
  define st0' where "st0' = st'\<lparr>data_file := (data_file st')\<lparr>fpos := m * ?r\<rparr>\<rparr>"
  have start: "(- 1 :: int) = - 1 \<and> k = (if True then 0 else m) \<or> (- 1 :: int) = int k"
    by (simp add: k_def)
  have km: "k \<le> m" by (simp add: k_def)
  have len': "length (content (data_file st')) = m * ?r" using c len by simp
  have u: "flat_file_scan ff st (- 1) loc row True p =
       scan_loop ff p True ?e ?e (int (k * ?r)) loc row st0"
    using flat_file_scan_unfold [OF ff len sod start km st0_def, of loc row p] by simp
  have u': "flat_file_scan ff st' (- 1) loc row True p =
       scan_loop ff p True ?e ?e (int (k * ?r)) loc row st0'"
    using flat_file_scan_unfold [OF ff' len' sod start km st0'_def, of loc row p] by simp
  have df: "data_file st0' = data_file st0"
    using c ff ff' by (simp add: st0_def st0'_def)
  show ?thesis
  proof (cases "m = 0")
    case True
    with b have "buffer st' = buffer st" by simp
    with df have "st0' = st0" by (simp add: st0_def st0'_def)
    with u u' show ?thesis by simp
  next
    case False
    then have k: "k < m" by (simp add: k_def)
    define n where "n = min (num_buffered ff) (m - k)"
    define data where "data = take (n * ?r) (drop (k * ?r) (content (data_file st0)))"
    define st1 where "st1 = \<lparr>data_file = (data_file st0)\<lparr>fpos := (k + n) * ?r\<rparr>,
                             buffer = store_bytes (buffer st0) data\<rparr>"
    have f0: "faults (data_file st0) = []" and l0: "length (content (data_file st0)) = m * ?r"
      using ff len by (simp_all add: st0_def)
    have f0': "faults (data_file st0') = []" and l0': "length (content (data_file st0')) = m * ?r"
      using ff' len' by (simp_all add: st0'_def)
    have "n * ?r \<le> m * ?r" by (intro mult_le_mono1) (simp add: n_def)
    then have ld: "length data = n * ?r" using l0 by (simp add: data_def k_def)
    have nm: "n = min (num_buffered ff) m" by (simp add: n_def k_def)
    have "drop (length data) (buffer st0') = drop (length data) (buffer st0)"
      using b by (simp add: ld nm st0_def st0'_def)
    then have sb: "store_bytes (buffer st0') data = store_bytes (buffer st0) data"
      by (rule store_bytes_same)
    have step: "scan_step ff p True (int (k * ?r)) loc row st0 =
      (case scan_batch ff p (store_bytes (buffer st0) data) n 0 row of
           (Some i, row') \<Rightarrow> Return (err_ok, int k + int i, row', st1)
         | (None, row') \<Rightarrow> Continue (int ((k + n) * ?r)) row' st1)"
      by (rule scan_step_forward [OF rs nb sod f0 l0 k n_def])
         (simp_all add: data_def st1_def)
    have step': "scan_step ff p True (int (k * ?r)) loc row st0' =
      (case scan_batch ff p (store_bytes (buffer st0) data) n 0 row of
           (Some i, row') \<Rightarrow> Return (err_ok, int k + int i, row', st1)
         | (None, row') \<Rightarrow> Continue (int ((k + n) * ?r)) row' st1)"
      by (rule scan_step_forward [OF rs nb sod f0' l0' k n_def])
         (simp_all add: data_def st1_def df sb [unfolded data_def])
    have r: "0 < ?r" using rs by simp
    have "k * ?r < m * ?r" using k r by simp
    then have ne: "int (k * ?r) \<noteq> ?e" by (simp del: of_nat_mult)
    have "scan_loop ff p True ?e ?e (int (k * ?r)) loc row st0'
        = scan_loop ff p True ?e ?e (int (k * ?r)) loc row st0"
      unfolding scan_loop.simps [of ff p True ?e ?e "int (k * ?r)" loc row st0']
        scan_loop.simps [of ff p True ?e ?e "int (k * ?r)" loc row st0] step step'
      using ne by (simp only: simp_thms if_True)
    with u u' show ?thesis by simp
  qed
qed

section \<open>The backward scan\<close>

lemma backward_batch_size:
  assumes r: "0 < (r::nat)" and k: "0 < k" and n: "n = min nb k"
  shows "(if int (k * r) - int (r * nb) < 0
          then int nb - (0 - (int (k * r) - int (r * nb))) div int r
          else int nb) = int n"
    and "(if int (k * r) - int (r * nb) < 0 then 0 else int (k * r) - int (r * nb))
          = int ((k - n) * r)"
proof -
  show "(if int (k * r) - int (r * nb) < 0
          then int nb - (0 - (int (k * r) - int (r * nb))) div int r
          else int nb) = int n"
  proof (cases "k < nb")
    case True
    then have lt: "k * r < r * nb" using r by (simp add: mult.commute)
    have "r * nb - k * r = (nb - k) * r" by (simp add: nat_distrib mult.commute)
    moreover have "int (r * nb - k * r) = int (r * nb) - int (k * r)"
      using lt by (intro of_nat_diff) simp
    ultimately have "int (r * nb) - int (k * r) = int ((nb - k) * r)" by simp
    then have "(0 - (int (k * r) - int (r * nb))) div int r = int (nb - k)"
      using r by (simp flip: zdiv_int del: of_nat_mult)
    with True lt show ?thesis by (simp add: n min_def del: of_nat_mult)
  next
    case False
    then have "r * nb \<le> k * r" by (simp add: mult.commute)
    with False show ?thesis by (simp add: n min_def del: of_nat_mult)
  qed
  show "(if int (k * r) - int (r * nb) < 0 then 0 else int (k * r) - int (r * nb))
          = int ((k - n) * r)"
  proof (cases "k < nb")
    case True
    then have lt: "k * r < r * nb" using r by (simp add: mult.commute)
    with True show ?thesis by (simp add: n min_def del: of_nat_mult)
  next
    case False
    then have le: "r * nb \<le> k * r" by (simp add: mult.commute)
    have "k * r - r * nb = (k - nb) * r" by (simp add: nat_distrib mult.commute)
    moreover have "int (k * r - r * nb) = int (k * r) - int (r * nb)"
      using le by (intro of_nat_diff)
    ultimately have "int (k * r) - int (r * nb) = int ((k - nb) * r)" by simp
    with False le show ?thesis by (simp add: n min_def del: of_nat_mult)
  qed
qed

lemma scan_step_backward_steps:
  assumes s1: "fseek_set (data_file st) cur = (0, f1)"
    and nrec: "(if cur - int (row_size ff * num_buffered ff) < start_of_data ff
          then int (num_buffered ff)
               - (start_of_data ff - (cur - int (row_size ff * num_buffered ff)))
                 div int (row_size ff)
          else int (num_buffered ff)) = int n"
    and cur': "(if cur - int (row_size ff * num_buffered ff) < start_of_data ff
          then start_of_data ff else cur - int (row_size ff * num_buffered ff)) = cur'"
    and s2: "fseek_set f1 cur' = (0, f2)"
    and s3: "fread f2 (row_size ff) n = (n, data, f3)"
  shows "scan_step ff p False cur loc row st =
     (case scan_batch ff p (store_bytes (buffer st) data) n 0 row of
           (Some i, row') \<Rightarrow>
             Return (err_ok, (cur' - start_of_data ff) div int (row_size ff) + int i, row',
                     \<lparr>data_file = f3, buffer = store_bytes (buffer st) data\<rparr>)
         | (None, row') \<Rightarrow>
             Continue cur' row' \<lparr>data_file = f3, buffer = store_bytes (buffer st) data\<rparr>)"
  unfolding scan_step_def s1 prod.case Let_def nrec cur' s2 nat_int s3
  by (simp split: prod.splits option.splits)

lemma scan_step_backward:
  assumes rs: "row_size ff = 1 + key_size ff + value_size ff"
    and nb: "0 < num_buffered ff" and sod: "start_of_data ff = 0"
    and ff: "faults (data_file st) = []"
    and len: "length (content (data_file st)) = m * row_size ff"
    and k: "0 < k" "k \<le> m"
    and n_def: "n = min (num_buffered ff) k"
    and buf': "buf' = store_bytes (buffer st)
                 (take (n * row_size ff) (drop ((k - n) * row_size ff) (content (data_file st))))"
    and st': "st' = \<lparr>data_file = (data_file st)\<lparr>fpos := k * row_size ff\<rparr>, buffer = buf'\<rparr>"
  shows "scan_step ff p False (int (k * row_size ff)) loc row st =
     (case scan_batch ff p buf' n 0 row of
           (Some i, row') \<Rightarrow> Return (err_ok, int (k - n) + int i, row', st')
         | (None, row') \<Rightarrow> Continue (int ((k - n) * row_size ff)) row' st')"
proof -
  let ?r = "row_size ff"
  let ?f = "data_file st"
  let ?bytes = "content ?f"
  let ?d = "take (n * ?r) (drop ((k - n) * ?r) ?bytes)"
  have r: "0 < ?r" using rs by simp
  have n: "0 < n" "n \<le> k" using nb k by (simp_all add: n_def)
  let ?f1 = "?f\<lparr>fpos := k * ?r\<rparr>"
  let ?f2 = "?f\<lparr>fpos := (k - n) * ?r\<rparr>"
  have s1: "fseek_set ?f (int (k * ?r)) = (0, ?f1)"
    using ff by (simp add: fseek_set_ok del: of_nat_mult)
  have f1: "faults ?f1 = []" using ff by simp
  have s2: "fseek_set ?f1 (int ((k - n) * ?r)) = (0, ?f2)"
    using f1 by (simp add: fseek_set_ok del: of_nat_mult)
  have f2: "faults ?f2 = []" using ff by simp
  have "(k - n + n) * ?r = k * ?r" using n by simp
  then have kn: "(k - n) * ?r + n * ?r = k * ?r" by (simp only: add_mult_distrib)
  have "k * ?r \<le> m * ?r" using k by (intro mult_le_mono1)
  with kn len have le: "(k - n) * ?r + n * ?r \<le> length ?bytes" by linarith
  then have ld: "length ?d = n * ?r" by simp
  have c: "?r * n = n * ?r" by (rule mult.commute)
  have dv: "n * ?r div ?r = n" using r by simp
  have "fread ?f2 ?r n = (length ?d div ?r, ?d, ?f2\<lparr>fpos := fpos ?f2 + length ?d\<rparr>)"
    unfolding fread_ok [OF f2 r n(1)] c by simp
  also have "length ?d div ?r = n" unfolding ld by (rule dv)
  also have "?f2\<lparr>fpos := fpos ?f2 + length ?d\<rparr> = ?f1"
  proof -
    have "fpos ?f2 + length ?d = k * ?r" unfolding ld using kn by simp
    then show ?thesis by simp
  qed
  finally have s3: "fread ?f2 ?r n = (n, ?d, ?f1)" .
  note bs = backward_batch_size [OF r k(1) n_def, unfolded sod [symmetric]]
  have d: "(int ((k - n) * ?r) - start_of_data ff) div int ?r = int (k - n)"
    unfolding sod using r by (simp flip: of_nat_mult zdiv_int)
  show ?thesis
    unfolding scan_step_backward_steps [OF s1 bs(1) bs(2) s2 s3] d buf' st' ..
qed

lemma scan_loop_backward_none:
  assumes rs: "row_size ff = 1 + key_size ff + value_size ff"
    and nb: "0 < num_buffered ff" and sod: "start_of_data ff = 0"
    and L: "num_buffered ff * row_size ff \<le> L"
  shows "faults (data_file st) = [] \<Longrightarrow>
    length (content (data_file st)) = m * row_size ff \<Longrightarrow> k \<le> m \<Longrightarrow>
    (\<And>j. j < k \<Longrightarrow> \<not> p ff (buffer_row ff (content (data_file st)) j)) \<Longrightarrow>
    \<exists>row' st'. scan_loop ff p False (int (m * row_size ff)) 0
                  (int (k * row_size ff)) loc row st
                = Some (err_file_hit_eof, int m, row', st') \<and> scan_keeps L st st'"
proof (induction k arbitrary: row st rule: less_induct)
  case (less k)
  let ?r = "row_size ff"
  let ?e = "int (m * ?r)"
  let ?bytes = "content (data_file st)"
  have r: "0 < ?r" using rs by simp
  show ?case
  proof (cases "k = 0")
    case True
    have "?e div int ?r = int m" using r by (simp flip: of_nat_mult zdiv_int)
    then show ?thesis
      using True less.prems(1) by (simp add: scan_loop_stop sod scan_keeps_refl del: of_nat_mult)
  next
    case False
    then have k: "0 < k" by simp
    define n where "n = min (num_buffered ff) k"
    define data where "data = take (n * ?r) (drop ((k - n) * ?r) ?bytes)"
    define buf' where "buf' = store_bytes (buffer st) data"
    define st1 where "st1 = \<lparr>data_file = (data_file st)\<lparr>fpos := k * ?r\<rparr>, buffer = buf'\<rparr>"
    have n: "0 < n" "n \<le> k" using nb k by (simp_all add: n_def)
    have step: "scan_step ff p False (int (k * ?r)) loc row st =
      (case scan_batch ff p buf' n 0 row of
           (Some i, row') \<Rightarrow> Return (err_ok, int (k - n) + int i, row', st1)
         | (None, row') \<Rightarrow> Continue (int ((k - n) * ?r)) row' st1)"
      by (rule scan_step_backward [OF rs nb sod less.prems(1,2) k less.prems(3) n_def])
         (simp_all add: data_def buf'_def st1_def)
    have "k * ?r \<le> m * ?r" using less.prems(3) by (intro mult_le_mono1)
    then have le: "(k - n + n) * ?r \<le> length ?bytes" using n less.prems(2) by simp
    have rows: "buffer_row ff buf' i = buffer_row ff ?bytes (k - n + i)" if "i < n" for i
      unfolding buf'_def data_def using that by (rule buffer_row_store_bytes [OF rs le])
    have "fst (scan_batch ff p buf' n 0 row) = None"
    proof (rule scan_batch_none)
      fix j assume "0 \<le> j" "j < n"
      then show "\<not> p ff (buffer_row ff buf' j)"
        using rows [of j] less.prems(4) [of "k - n + j"] n by simp
    qed
    then obtain row1 where b: "scan_batch ff p buf' n 0 row = (None, row1)"
      by (cases "scan_batch ff p buf' n 0 row") auto
    have ne: "int (k * ?r) \<noteq> 0" using k r by simp
    have cont: "scan_loop ff p False ?e 0 (int (k * ?r)) loc row st
        = scan_loop ff p False ?e 0 (int ((k - n) * ?r)) loc row1 st1"
      by (rule scan_loop_continue [OF ne]) (simp only: step b prod.case option.case)
    have c1: "content (data_file st1) = ?bytes" and f1: "faults (data_file st1) = []"
      using less.prems(1) by (simp_all add: st1_def)
    have "length data \<le> n * ?r" by (simp add: data_def)
    moreover have "n * ?r \<le> num_buffered ff * ?r" by (intro mult_le_mono1) (simp add: n_def)
    ultimately have "length data \<le> L" using L by linarith
    then have keep: "scan_keeps L st st1"
      using less.prems(1) by (simp add: scan_keeps_def st1_def buf'_def drop_store_bytes)
    have "\<exists>row' st'. scan_loop ff p False ?e 0 (int ((k - n) * ?r)) loc row1 st1
               = Some (err_file_hit_eof, int m, row', st') \<and> scan_keeps L st1 st'"
    proof (rule less.IH)
      show "k - n < k" using n by simp
      show "faults (data_file st1) = []" by (rule f1)
      show "length (content (data_file st1)) = m * ?r" using c1 less.prems(2) by simp
      show "k - n \<le> m" using less.prems(3) by simp
      fix j assume "j < k - n"
      then show "\<not> p ff (buffer_row ff (content (data_file st1)) j)"
        using less.prems(4) [of j] c1 by simp
    qed
    then obtain row' st' where
      res: "scan_loop ff p False ?e 0 (int ((k - n) * ?r)) loc row1 st1
             = Some (err_file_hit_eof, int m, row', st')" and keep': "scan_keeps L st1 st'"
      by blast
    from keep keep' have "scan_keeps L st st'" by (rule scan_keeps_trans)
    with cont res show ?thesis by auto
  qed
qed

section \<open>The forward scan returns and keeps the file, whatever fails\<close>

lemma next_fault_content: "next_fault f = (b, f') \<Longrightarrow> content f' = content f \<and> fpos f' = fpos f"
  by (auto simp: next_fault_def split: list.splits)

lemma fseek_set_content: "fseek_set f off = (r, f') \<Longrightarrow> content f' = content f"
  by (auto simp: fseek_set_def split: prod.splits if_splits dest: next_fault_content)

lemma fseek_set_pos: "fseek_set f off = (0, f') \<Longrightarrow> 0 \<le> off \<and> fpos f' = nat off"
  by (auto simp: fseek_set_def split: prod.splits if_splits)

lemma fseek_end_content: "fseek_end f = (r, f') \<Longrightarrow> content f' = content f"
  by (auto simp: fseek_end_def split: prod.splits if_splits dest: next_fault_content)

lemma ftell_content: "ftell f = (r, f') \<Longrightarrow> content f' = content f"
  by (auto simp: ftell_def split: prod.splits if_splits dest: next_fault_content)

lemma ftell_pos: "ftell f = (r, f') \<Longrightarrow> r \<noteq> - 1 \<Longrightarrow> r = int (fpos f)"
  by (auto simp: ftell_def split: prod.splits if_splits dest: next_fault_content)

lemma fread_content: "fread f sz n = (k, data, f') \<Longrightarrow> content f' = content f"
  by (auto simp: fread_def Let_def split: prod.splits if_splits dest: next_fault_content)

lemma fread_pos:
  assumes "fread f sz n = (k, data, f')" and "k \<noteq> 0"
  shows "fpos f < fpos f' \<and> fpos f' \<le> length (content f)"
proof -
  obtain b f1 where nf: "next_fault f = (b, f1)" by (cases "next_fault f")
  note c = next_fault_content [OF nf]
  from assms nf have ok: "\<not> b" "sz \<noteq> 0" "n \<noteq> 0"
    by (auto simp: fread_def split: if_splits)
  let ?data = "take (sz * n) (drop (fpos f) (content f))"
  from assms nf ok c have k: "k = length ?data div sz" and p: "fpos f' = fpos f + length ?data"
    by (auto simp: fread_def Let_def)
  from k assms(2) ok have "0 < length ?data" by (cases "length ?data") auto
  moreover have "length ?data \<le> length (content f) - fpos f" by simp
  ultimately show ?thesis using p by linarith
qed


lemma scan_step_forward_content:
  "scan_step ff p True cur loc row st = Return (e, l, r, st') \<Longrightarrow>
     content (data_file st') = content (data_file st)"
  "scan_step ff p True cur loc row st = Continue cur' row' st' \<Longrightarrow>
     content (data_file st') = content (data_file st) \<and> cur < cur' \<and>
     cur' \<le> int (length (content (data_file st)))"
proof -
  obtain r1 f1 where s1: "fseek_set (data_file st) cur = (r1, f1)"
    by (cases "fseek_set (data_file st) cur")
  obtain n data f2 where s2: "fread f1 (row_size ff) (num_buffered ff) = (n, data, f2)"
    by (cases "fread f1 (row_size ff) (num_buffered ff)")
  obtain c3 f3 where s3: "ftell f2 = (c3, f3)" by (cases "ftell f2")
  note c1 = fseek_set_content [OF s1] and c2 = fread_content [OF s2] and c3 = ftell_content [OF s3]
  {
    assume "scan_step ff p True cur loc row st = Return (e, l, r, st')"
    then show "content (data_file st') = content (data_file st)"
      using c1 c2 c3
      by (auto simp: scan_step_def s1 s2 s3 Let_def split: if_splits prod.splits option.splits)
  }
  {
    assume a: "scan_step ff p True cur loc row st = Continue cur' row' st'"
    then have ok: "r1 = 0" "n \<noteq> 0" "c3 \<noteq> - 1" "cur' = c3" "data_file st' = f3"
      by (auto simp: scan_step_def s1 s2 s3 Let_def split: if_splits prod.splits option.splits)
    from s1 ok have p1: "0 \<le> cur" "fpos f1 = nat cur" using fseek_set_pos by auto
    from fread_pos [OF s2 ok(2)] have p2: "fpos f1 < fpos f2" "fpos f2 \<le> length (content f1)" by auto
    from ftell_pos [OF s3 ok(3)] have p3: "c3 = int (fpos f2)" .
    show "content (data_file st') = content (data_file st) \<and> cur < cur' \<and>
       cur' \<le> int (length (content (data_file st)))"
      using ok c1 c2 c3 p1 p2 p3 by auto
  }
qed

lemma scan_loop_forward_total:
  "\<exists>e l r st'. scan_loop ff p True eof_pos end_offset cur loc row st = Some (e, l, r, st') \<and>
      content (data_file st') = content (data_file st)"
proof (induction "nat (int (length (content (data_file st))) - cur)" arbitrary: cur row st
       rule: less_induct)
  case less
  show ?case
  proof (cases "cur = end_offset")
    case True
    then show ?thesis by (simp add: scan_loop_stop)
  next
    case ne: False
    show ?thesis
    proof (cases "scan_step ff p True cur loc row st")
      case (Return res)
      obtain e l r st' where res: "res = (e, l, r, st')" by (cases res)
      from scan_step_forward_content(1) [OF Return [unfolded res]]
      show ?thesis using scan_loop_return [OF ne Return] res by auto
    next
      case (Continue cur' row' st1)
      note c = scan_step_forward_content(2) [OF Continue]
      have "\<exists>e l r st'. scan_loop ff p True eof_pos end_offset cur' loc row' st1
              = Some (e, l, r, st') \<and> content (data_file st') = content (data_file st1)"
        by (rule less.hyps) (use c in auto)
      then show ?thesis using scan_loop_continue [OF ne Continue] c by auto
    qed
  qed
qed

lemma flat_file_scan_forward_total:
  "\<exists>e l r st'. flat_file_scan ff st sl loc row True p = Some (e, l, r, st') \<and>
      content (data_file st') = content (data_file st)"
proof -
  obtain r1 f1 where s1: "fseek_end (data_file st) = (r1, f1)"
    by (cases "fseek_end (data_file st)")
  obtain e2 f2 where s2: "ftell f1 = (e2, f2)" by (cases "ftell f1")
  note c1 = fseek_end_content [OF s1] and c2 = ftell_content [OF s2]
  have c: "content (data_file (st\<lparr>data_file := f2\<rparr>)) = content (data_file st)"
    "content (data_file (st\<lparr>data_file := f1\<rparr>)) = content (data_file st)"
    using c1 c2 by simp_all
  show ?thesis
    using scan_loop_forward_total [of ff p e2 e2 _ loc row "st\<lparr>data_file := f2\<rparr>"] c
    by (auto simp: flat_file_scan_def s1 s2 Let_def)
qed

section \<open>Well-formed stores; the example store\<close>

lemma well_formed_len:
  "well_formed ff st \<Longrightarrow> length (content (data_file st)) = num_rows ff st * row_size ff"
  unfolding well_formed_def num_rows_def by (elim conjE) (simp only: dvd_div_mult_self)

lemma well_formed_geometry:
  assumes "well_formed ff st"
  shows "row_size ff = 1 + key_size ff + value_size ff" "0 < num_buffered ff"
    "start_of_data ff = 0" "\<not> sorted_mode ff"
  using assms by (simp_all add: well_formed_def)

lemma key_match_file_row:
  "flat_file_predicate_key_match k ff (buffer_row ff (content (data_file st)) i)
   \<longleftrightarrow> key_matches ff st k i"
  by (auto simp: flat_file_predicate_key_match_def key_matches_def file_row_def)

lemma empty_file_row:
  "flat_file_predicate_empty ff (buffer_row ff (content (data_file st)) i) \<longleftrightarrow> row_empty ff st i"
  by (auto simp: flat_file_predicate_empty_def row_empty_def file_row_def)

lemma val_file_row: "val (buffer_row ff (content (data_file st)) i) = Some (row_value_bytes ff st i)"
  by (simp add: buffer_row_def row_value_bytes_def Let_def)

lemma ex_store: "well_formed ff_ex st_ex" "fault_free st_ex" "num_rows ff_ex st_ex = 4"
  by code_simp+

lemma ex_key_matches:
  "key_matches ff_ex st_ex (Some [5]) 0" "\<not> key_matches ff_ex st_ex (Some [5]) (Suc 0)"
  "key_matches ff_ex st_ex (Some [5]) 2" "\<not> key_matches ff_ex st_ex (Some [5]) 3"
  "\<not> key_matches ff_ex st_ex (Some [6]) 0" "\<not> key_matches ff_ex st_ex (Some [6]) (Suc 0)"
  "\<not> key_matches ff_ex st_ex (Some [6]) 2" "key_matches ff_ex st_ex (Some [6]) 3"
  "\<not> key_matches ff_ex st_ex (Some [9]) 0" "\<not> key_matches ff_ex st_ex (Some [9]) (Suc 0)"
  "\<not> key_matches ff_ex st_ex (Some [9]) 2" "\<not> key_matches ff_ex st_ex (Some [9]) 3"
  by code_simp+

lemma less_4_cases: "j < (4::nat) \<longleftrightarrow> j = 0 \<or> j = Suc 0 \<or> j = 2 \<or> j = 3"
  by auto

lemma less_3_cases: "j < (3::nat) \<longleftrightarrow> j = 0 \<or> j = Suc 0 \<or> j = 2"
  by auto

section \<open>A scan that finds nothing\<close>

text \<open>
  C7: a scan, forwards or backwards, from the flag \<open>-1\<close> or from any row index between
  zero and the number of rows, in which no examined row satisfies the predicate, returns
  \<open>err_file_hit_eof\<close>, and the location it reports is the number of rows of the file,
  one past the last row.
\<close>

theorem scan_hit_end:
  assumes wf: "well_formed ff st" and ok: "fault_free st"
    and start: "start = - 1 \<or> (0 \<le> start \<and> start \<le> int (num_rows ff st))"
    and none: "\<forall>j. scanned ff st start fw j \<longrightarrow> \<not> p ff (file_row ff st j)"
  shows "\<exists>row' st'. flat_file_scan ff st start loc row fw p
            = Some (err_file_hit_eof, int (num_rows ff st), row', st')
          \<and> content (data_file st') = content (data_file st)"
proof -
  let ?m = "num_rows ff st"
  let ?r = "row_size ff"
  let ?L = "num_buffered ff * ?r"
  note g = well_formed_geometry [OF wf]
  note len = well_formed_len [OF wf]
  have ff: "faults (data_file st) = []" using ok by (simp add: fault_free_def)
  show ?thesis
  proof (cases fw)
    case True
    define k where "k = (if start = - 1 then 0 else nat start)"
    have k: "k \<le> ?m" and s: "start = - 1 \<and> k = 0 \<or> start = int k"
      using start by (auto simp: k_def)
    have "\<exists>row' st'. flat_file_scan ff st start loc row True p
                = Some (err_file_hit_eof, int ?m, row', st') \<and> scan_keeps ?L st st'"
    proof (rule flat_file_scan_forward_none [OF g(1,2,3) _ ff len s k])
      show "?L \<le> ?L \<or> ?m * ?r \<le> ?L" by simp
      fix j assume "k \<le> j" "j < ?m"
      then have "scanned ff st start fw j" using True by (simp add: scanned_def k_def)
      with none show "\<not> p ff (buffer_row ff (content (data_file st)) j)"
        by (simp add: file_row_def)
    qed
    with True show ?thesis by (auto dest: scan_keeps_content)
  next
    case False
    define k where "k = (if start = - 1 then ?m else nat start)"
    have k: "k \<le> ?m" and s: "start = - 1 \<and> k = (if fw then 0 else ?m) \<or> start = int k"
      using start False by (auto simp: k_def)
    define st0 where "st0 = st\<lparr>data_file := (data_file st)\<lparr>fpos := ?m * ?r\<rparr>\<rparr>"
    have u: "flat_file_scan ff st start loc row fw p =
       scan_loop ff p fw (int (?m * ?r)) (if fw then int (?m * ?r) else 0)
         (int (k * ?r)) loc row st0"
      by (rule flat_file_scan_unfold [OF ff len g(3) s k st0_def])
    have k0: "scan_keeps ?L st st0" unfolding st0_def using ff by (rule scan_keeps_seek)
    have "\<exists>row' st'. scan_loop ff p False (int (?m * ?r)) 0 (int (k * ?r)) loc row st0
                = Some (err_file_hit_eof, int ?m, row', st') \<and> scan_keeps ?L st0 st'"
    proof (rule scan_loop_backward_none [OF g(1,2,3) _ _ _ k])
      show "?L \<le> ?L" by simp
      show "faults (data_file st0) = []" using ff by (simp add: st0_def)
      show "length (content (data_file st0)) = ?m * ?r" using len by (simp add: st0_def)
      fix j assume "j < k"
      then have "scanned ff st start fw j" using False by (simp add: scanned_def k_def)
      with none show "\<not> p ff (buffer_row ff (content (data_file st0)) j)"
        by (simp add: file_row_def st0_def)
    qed
    then obtain row' st' where
      res: "scan_loop ff p False (int (?m * ?r)) 0 (int (k * ?r)) loc row st0
                = Some (err_file_hit_eof, int ?m, row', st')" and k1: "scan_keeps ?L st0 st'"
      by blast
    from k0 k1 have "scan_keeps ?L st st'" by (rule scan_keeps_trans)
    then have "content (data_file st') = content (data_file st)" by (rule scan_keeps_content)
    moreover have "flat_file_scan ff st start loc row fw p
        = Some (err_file_hit_eof, int ?m, row', st')"
      unfolding u using False res by simp
    ultimately show ?thesis by blast
  qed
qed

lemma ex_scanned: "scanned ff_ex st_ex (- 1) fw j \<longleftrightarrow> j < 4"
  by (simp add: scanned_def ex_store)

theorem scan_hit_end_witness:
  "well_formed ff_ex st_ex \<and> fault_free st_ex \<and>
   \<not> flat_file_predicate_key_match (Some [9]) ff_ex (file_row ff_ex st_ex 0) \<and>
   \<not> flat_file_predicate_key_match (Some [9]) ff_ex (file_row ff_ex st_ex 1) \<and>
   \<not> flat_file_predicate_key_match (Some [9]) ff_ex (file_row ff_ex st_ex 2) \<and>
   \<not> flat_file_predicate_key_match (Some [9]) ff_ex (file_row ff_ex st_ex 3) \<and>
   (\<exists>row' st'. flat_file_scan ff_ex st_ex (- 1) (- 1) uninitialized_row True
                  (flat_file_predicate_key_match (Some [9]))
                = Some (err_file_hit_eof, 4, row', st')) \<and>
   (\<exists>row' st'. flat_file_scan ff_ex st_ex (- 1) (- 1) uninitialized_row False
                  (flat_file_predicate_key_match (Some [9]))
                = Some (err_file_hit_eof, 4, row', st'))"
proof -
  let ?p = "flat_file_predicate_key_match (Some [9])"
  have no: "\<not> ?p ff_ex (file_row ff_ex st_ex 0)" "\<not> ?p ff_ex (file_row ff_ex st_ex (Suc 0))"
    "\<not> ?p ff_ex (file_row ff_ex st_ex 2)" "\<not> ?p ff_ex (file_row ff_ex st_ex 3)"
    using ex_key_matches by (simp_all add: file_row_def key_match_file_row)
  then have all: "\<forall>j. scanned ff_ex st_ex (- 1) fw j \<longrightarrow> \<not> ?p ff_ex (file_row ff_ex st_ex j)" for fw
    by (simp add: ex_scanned less_4_cases)
  have s: "- 1 = (- 1 :: int) \<or> (0 \<le> (- 1 :: int) \<and> - 1 \<le> int (num_rows ff_ex st_ex))" by simp
  from scan_hit_end [where ff = ff_ex and st = st_ex and start = "- 1" and fw = True
        and p = ?p and loc = "- 1" and row = uninitialized_row, OF ex_store(1,2) s all]
    scan_hit_end [where ff = ff_ex and st = st_ex and start = "- 1" and fw = False
        and p = ?p and loc = "- 1" and row = uninitialized_row, OF ex_store(1,2) s all]
  show ?thesis using ex_store no by auto
qed

section \<open>Writing rows\<close>

lemma write_at_inside:
  "p \<le> length bs \<Longrightarrow> write_at bs p d = take p bs @ d @ drop (p + length d) bs"
  by (simp add: write_at_def)

lemma length_write_at:
  "p \<le> length bs \<Longrightarrow> length (write_at bs p d) = max (length bs) (p + length d)"
  by (auto simp: write_at_inside)

lemma write_at_append:
  assumes "p \<le> length bs"
  shows "write_at (write_at bs p d1) (p + length d1) d2 = write_at bs p (d1 @ d2)"
proof -
  let ?X = "take p bs @ d1 @ drop (p + length d1) bs"
  have lp: "length (take p bs) = p" using assms by simp
  have X: "write_at bs p d1 = ?X" using assms by (rule write_at_inside)
  have le: "p + length d1 \<le> length ?X" using assms by simp
  have t: "take (p + length d1) ?X = take p bs @ d1" using lp by simp
  have d: "drop (p + length d1 + length d2) ?X = drop (p + length (d1 @ d2)) bs"
    using lp by (simp add: add.commute add.left_commute)
  show ?thesis
    unfolding X write_at_inside [OF le] t d using assms by (simp add: write_at_inside)
qed

lemma nth_write_at_outside:
  assumes "p \<le> length bs" and "b < p \<or> p + length d \<le> b" and "b < length bs"
  shows "write_at bs p d ! b = bs ! b"
proof -
  have lp: "length (take p bs) = p" using assms by simp
  from assms(2) show ?thesis
  proof
    assume "b < p"
    then show ?thesis using assms(1) lp by (simp add: write_at_inside nth_append)
  next
    assume ge: "p + length d \<le> b"
    then have "\<not> b < p" "\<not> b - p < length d" by auto
    then show ?thesis using assms(1,3) ge lp
      by (simp add: write_at_inside nth_append)
  qed
qed

lemma nth_write_at_inside:
  assumes "p \<le> length bs" and "b < length d"
  shows "write_at bs p d ! (p + b) = d ! b"
proof -
  have lp: "length (take p bs) = p" using assms by simp
  show ?thesis using assms lp by (simp add: write_at_inside nth_append)
qed

lemma buffer_row_write_other:
  assumes rs: "row_size ff = 1 + key_size ff + value_size ff"
    and p: "p \<le> length bs" and j: "j * row_size ff + row_size ff \<le> length bs"
    and away: "j * row_size ff + row_size ff \<le> p \<or> p + length d \<le> j * row_size ff"
  shows "buffer_row ff (write_at bs p d) j = buffer_row ff bs j"
proof (rule buffer_row_eqI [OF rs _ j])
  show "j * row_size ff + row_size ff \<le> length (write_at bs p d)"
    using j p by (simp add: length_write_at)
  fix x assume "x < row_size ff"
  then show "write_at bs p d ! (j * row_size ff + x) = bs ! (j * row_size ff + x)"
    using away j by (intro nth_write_at_outside [OF p]) auto
qed

lemma buffer_row_write_full:
  assumes rs: "row_size ff = 1 + key_size ff + value_size ff"
    and p: "i * row_size ff \<le> length bs"
    and kb: "length kb = key_size ff" and vb: "length vb = value_size ff"
  shows "buffer_row ff (write_at bs (i * row_size ff) (s # kb @ vb)) i
       = \<lparr>row_status = s, key = Some kb, val = Some vb\<rparr>"
proof -
  let ?p = "i * row_size ff"
  have lp: "length (take ?p bs) = ?p" using p by simp
  have w: "write_at bs ?p (s # kb @ vb) = take ?p bs @ s # kb @ vb @ drop (?p + row_size ff) bs"
    using p rs kb vb by (simp add: write_at_inside)
  show ?thesis
    unfolding w buffer_row_def Let_def using lp kb vb
    by (simp add: nth_append)
qed

lemma buffer_row_write_status:
  assumes rs: "row_size ff = 1 + key_size ff + value_size ff"
    and i: "i * row_size ff + row_size ff \<le> length bs"
  shows "buffer_row ff (write_at bs (i * row_size ff) [s]) i
       = (buffer_row ff bs i)\<lparr>row_status := s\<rparr>"
proof -
  let ?p = "i * row_size ff"
  have p: "?p \<le> length bs" using i by simp
  have lp: "length (take ?p bs) = ?p" using p by simp
  have w: "write_at bs ?p [s] = take ?p bs @ s # drop (?p + 1) bs"
    using p by (simp add: write_at_inside)
  have d1: "drop (?p + 1) (take ?p bs @ s # drop (?p + 1) bs) = drop (?p + 1) bs"
    using lp by simp
  have d2: "drop (?p + 1 + key_size ff) (take ?p bs @ s # drop (?p + 1) bs)
      = drop (?p + 1 + key_size ff) bs"
    using lp by (simp add: add.commute)
  have n: "(take ?p bs @ s # drop (?p + 1) bs) ! ?p = s" using lp by (simp add: nth_append)
  show ?thesis
    unfolding w buffer_row_def Let_def d1 d2 n by simp
qed

lemma write_row_full:
  assumes ff: "faults (data_file st) = []"
    and ks: "0 < key_size ff" and vs: "0 < value_size ff"
    and kb: "length kb = key_size ff" and vb: "length vb = value_size ff"
    and p: "i * row_size ff \<le> length (content (data_file st))"
  shows "flat_file_write_row ff st (int i) \<lparr>row_status = s, key = Some kb, val = Some vb\<rparr>
       = (err_ok, st\<lparr>data_file := (data_file st)
            \<lparr>content := write_at (content (data_file st)) (i * row_size ff) (s # kb @ vb),
             fpos := i * row_size ff + 1 + key_size ff + value_size ff\<rparr>\<rparr>)"
proof -
  let ?f = "data_file st"
  let ?p = "i * row_size ff"
  let ?c = "content ?f"
  let ?f1 = "?f\<lparr>fpos := ?p\<rparr>"
  let ?f2 = "?f\<lparr>content := write_at ?c ?p [s], fpos := Suc ?p\<rparr>"
  let ?f3 = "?f\<lparr>content := write_at ?c ?p (s # kb), fpos := Suc (?p + key_size ff)\<rparr>"
  let ?f4 = "?f\<lparr>content := write_at ?c ?p (s # kb @ vb),
                 fpos := Suc (?p + key_size ff + value_size ff)\<rparr>"
  have s1: "fseek_set ?f (int i * int (row_size ff)) = (0, ?f1)"
    using ff by (simp add: fseek_set_ok nat_mult_distrib)
  have s2: "fwrite ?f1 [s] (Suc 0) = (Suc 0, ?f2)"
    using ff by (simp add: fwrite_ok)
  have a3: "write_at (write_at ?c ?p [s]) (Suc ?p) kb = write_at ?c ?p (s # kb)"
    using write_at_append [OF p, of "[s]" kb] by simp
  have s3: "fwrite ?f2 kb (key_size ff) = (Suc 0, ?f3)"
    using ff ks kb by (simp add: fwrite_ok a3)
  have a4: "write_at (write_at ?c ?p (s # kb)) (Suc (?p + key_size ff)) vb
      = write_at ?c ?p (s # kb @ vb)"
    using write_at_append [OF p, of "s # kb" vb] kb by (simp add: add.assoc)
  have s4: "fwrite ?f3 vb (value_size ff) = (Suc 0, ?f4)"
    using ff vs vb by (simp add: fwrite_ok a4)
  show ?thesis
    unfolding flat_file_write_row_def by (simp add: s1 s2 s3 s4)
qed

text \<open>
  With a value of no bytes the last \<open>fwrite\<close> returns zero and the writer reports
  \<open>err_file_incomplete_write\<close>; the status and the key are in the file all the same.
\<close>

lemma write_row_full_content:
  assumes ff: "faults (data_file st) = []"
    and ks: "0 < key_size ff"
    and kb: "length kb = key_size ff" and vb: "length vb = value_size ff"
    and p: "i * row_size ff \<le> length (content (data_file st))"
  shows "\<exists>e st2. flat_file_write_row ff st (int i)
            \<lparr>row_status = s, key = Some kb, val = Some vb\<rparr> = (e, st2)
      \<and> faults (data_file st2) = []
      \<and> content (data_file st2) = write_at (content (data_file st)) (i * row_size ff) (s # kb @ vb)"
proof (cases "0 < value_size ff")
  case True
  show ?thesis
    unfolding write_row_full [OF ff ks True kb vb p] using ff by simp
next
  case False
  then have v0: "value_size ff = 0" "vb = []" using vb by simp_all
  let ?f = "data_file st"
  let ?p = "i * row_size ff"
  let ?c = "content ?f"
  let ?f1 = "?f\<lparr>fpos := ?p\<rparr>"
  let ?f2 = "?f\<lparr>content := write_at ?c ?p [s], fpos := Suc ?p\<rparr>"
  let ?f3 = "?f\<lparr>content := write_at ?c ?p (s # kb), fpos := Suc (?p + key_size ff)\<rparr>"
  have s1: "fseek_set ?f (int i * int (row_size ff)) = (0, ?f1)"
    using ff by (simp add: fseek_set_ok nat_mult_distrib)
  have s2: "fwrite ?f1 [s] (Suc 0) = (Suc 0, ?f2)"
    using ff by (simp add: fwrite_ok)
  have a3: "write_at (write_at ?c ?p [s]) (Suc ?p) kb = write_at ?c ?p (s # kb)"
    using write_at_append [OF p, of "[s]" kb] by simp
  have s3: "fwrite ?f2 kb (key_size ff) = (Suc 0, ?f3)"
    using ff ks kb by (simp add: fwrite_ok a3)
  have s4: "fwrite ?f3 [] 0 = (0, ?f3)"
    using ff by (simp add: fwrite_def next_fault_none)
  have "flat_file_write_row ff st (int i) \<lparr>row_status = s, key = Some kb, val = Some vb\<rparr>
      = (err_file_incomplete_write, st\<lparr>data_file := ?f3\<rparr>)"
    unfolding flat_file_write_row_def by (simp add: s1 s2 s3 s4 v0)
  then show ?thesis using ff v0 by simp
qed

lemma write_row_status:
  assumes ff: "faults (data_file st) = []"
  shows "flat_file_write_row ff st (int i) \<lparr>row_status = s, key = None, val = None\<rparr>
       = (err_ok, st\<lparr>data_file := (data_file st)
            \<lparr>content := write_at (content (data_file st)) (i * row_size ff) [s],
             fpos := i * row_size ff + 1\<rparr>\<rparr>)"
proof -
  let ?f = "data_file st"
  let ?p = "i * row_size ff"
  let ?f1 = "?f\<lparr>fpos := ?p\<rparr>"
  have s1: "fseek_set ?f (int i * int (row_size ff)) = (0, ?f1)"
    using ff by (simp add: fseek_set_ok nat_mult_distrib)
  have s2: "fwrite ?f1 [s] (Suc 0)
      = (Suc 0, ?f\<lparr>content := write_at (content ?f) ?p [s], fpos := Suc ?p\<rparr>)"
    using ff by (simp add: fwrite_ok)
  show ?thesis
    unfolding flat_file_write_row_def by (simp add: s1 s2)
qed

section \<open>Get\<close>

lemma get_found:
  assumes wf: "well_formed ff st" and ok: "fault_free st"
    and i: "i < num_rows ff st" and m: "key_matches ff st k i"
    and first: "\<forall>j<i. \<not> key_matches ff st k j"
  shows "\<exists>st'. flat_file_get ff st k v =
               Some (\<lparr>error = err_ok, count = 1\<rparr>,
                     row_value_bytes ff st i @ drop (value_size ff) v, st')
             \<and> content (data_file st') = content (data_file st)"
proof -
  let ?L = "num_buffered ff * row_size ff"
  note g = well_formed_geometry [OF wf]
  note len = well_formed_len [OF wf]
  have ff: "faults (data_file st) = []" using ok by (simp add: fault_free_def)
  have "\<exists>st'. flat_file_scan ff st (- 1) (- 1) uninitialized_row True
            (flat_file_predicate_key_match k)
          = Some (err_ok, int i, buffer_row ff (content (data_file st)) i, st')
        \<and> scan_keeps ?L st st'"
    by (rule flat_file_scan_forward_found [OF g(1,2,3) _ ff len, where k = 0])
       (use i m first in \<open>simp_all add: key_match_file_row\<close>)
  then obtain st' where
    s: "flat_file_scan ff st (- 1) (- 1) uninitialized_row True (flat_file_predicate_key_match k)
          = Some (err_ok, int i, buffer_row ff (content (data_file st)) i, st')"
    and keep: "scan_keeps ?L st st'" by blast
  have "row_value_bytes ff st i = take (value_size ff) (row_value_bytes ff st i)"
    by (simp add: row_value_bytes_def)
  then have "flat_file_get ff st k v =
             Some (\<lparr>error = err_ok, count = 1\<rparr>,
                   row_value_bytes ff st i @ drop (value_size ff) v, st')"
    using g(4) by (simp add: flat_file_get_def s ION_STATUS_INITIALIZE_def memcpy_def val_file_row)
  with scan_keeps_content [OF keep] show ?thesis by blast
qed

lemma get_not_found:
  assumes wf: "well_formed ff st" and ok: "fault_free st"
    and none: "\<forall>j<num_rows ff st. \<not> key_matches ff st k j"
  shows "\<exists>st'. flat_file_get ff st k v =
               Some (\<lparr>error = err_item_not_found, count = 0\<rparr>, v, st')
             \<and> content (data_file st') = content (data_file st)"
proof -
  let ?m = "num_rows ff st"
  let ?L = "num_buffered ff * row_size ff"
  note g = well_formed_geometry [OF wf]
  note len = well_formed_len [OF wf]
  have ff: "faults (data_file st) = []" using ok by (simp add: fault_free_def)
  have "\<exists>row' st'. flat_file_scan ff st (- 1) (- 1) uninitialized_row True
            (flat_file_predicate_key_match k)
          = Some (err_file_hit_eof, int ?m, row', st') \<and> scan_keeps ?L st st'"
    by (rule flat_file_scan_forward_none [OF g(1,2,3) _ ff len, where k = 0])
       (use none in \<open>simp_all add: key_match_file_row\<close>)
  then obtain row' st' where
    s: "flat_file_scan ff st (- 1) (- 1) uninitialized_row True (flat_file_predicate_key_match k)
          = Some (err_file_hit_eof, int ?m, row', st')"
    and keep: "scan_keeps ?L st st'" by blast
  have "flat_file_get ff st k v = Some (\<lparr>error = err_item_not_found, count = 0\<rparr>, v, st')"
    using g(4) by (simp add: flat_file_get_def s ION_STATUS_INITIALIZE_def)
  with scan_keeps_content [OF keep] show ?thesis by blast
qed

text \<open>
  C8: Get scans forward from the natural start with the exact-key predicate. If some
  occupied row has a key that compares equal to \<open>k\<close>, Get returns count 1 and copies the
  value bytes of the lowest such row into the caller's buffer; if no row matches, the
  hit-end outcome of the scan is reported as \<open>err_item_not_found\<close>.
\<close>

theorem get_first_match:
  assumes wf: "well_formed ff st" and ok: "fault_free st"
  shows "(i < num_rows ff st \<and> key_matches ff st k i \<and> (\<forall>j<i. \<not> key_matches ff st k j) \<longrightarrow>
           (\<exists>st'. flat_file_get ff st k v =
               Some (\<lparr>error = err_ok, count = 1\<rparr>,
                     row_value_bytes ff st i @ drop (value_size ff) v, st')
             \<and> content (data_file st') = content (data_file st)))
       \<and> ((\<forall>j<num_rows ff st. \<not> key_matches ff st k j) \<longrightarrow>
           (\<exists>st'. flat_file_get ff st k v =
               Some (\<lparr>error = err_item_not_found, count = 0\<rparr>, v, st')
             \<and> content (data_file st') = content (data_file st)))"
  using get_found [OF wf ok] get_not_found [OF wf ok] by blast

theorem get_first_match_witness:
  "well_formed ff_ex st_ex \<and> fault_free st_ex \<and>
   3 < num_rows ff_ex st_ex \<and> key_matches ff_ex st_ex (Some [6]) 3 \<and>
   \<not> key_matches ff_ex st_ex (Some [6]) 0 \<and> \<not> key_matches ff_ex st_ex (Some [6]) 1 \<and>
   \<not> key_matches ff_ex st_ex (Some [6]) 2 \<and>
   (\<exists>st'. flat_file_get ff_ex st_ex (Some [6]) [0] =
              Some (\<lparr>error = err_ok, count = 1\<rparr>, [4], st')) \<and>
   \<not> key_matches ff_ex st_ex (Some [9]) 0 \<and> \<not> key_matches ff_ex st_ex (Some [9]) 1 \<and>
   \<not> key_matches ff_ex st_ex (Some [9]) 2 \<and> \<not> key_matches ff_ex st_ex (Some [9]) 3 \<and>
   (\<exists>st'. flat_file_get ff_ex st_ex (Some [9]) [0] =
              Some (\<lparr>error = err_item_not_found, count = 0\<rparr>, [0], st'))"
proof -
  have v: "row_value_bytes ff_ex st_ex 3 @ drop (value_size ff_ex) [0] = [4]"
    by code_simp
  have no: "\<forall>j<num_rows ff_ex st_ex. \<not> key_matches ff_ex st_ex (Some [9]) j"
    by (simp add: ex_store less_4_cases ex_key_matches)
  have yes: "3 < num_rows ff_ex st_ex \<and> key_matches ff_ex st_ex (Some [6]) 3 \<and>
     (\<forall>j<3. \<not> key_matches ff_ex st_ex (Some [6]) j)"
    by (simp add: ex_store less_3_cases ex_key_matches)
  from get_first_match [OF ex_store(1,2), of 3 "Some [6]" "[0]"] yes v
  have a: "\<exists>st'. flat_file_get ff_ex st_ex (Some [6]) [0] =
              Some (\<lparr>error = err_ok, count = 1\<rparr>, [4], st')" by auto
  from get_first_match [OF ex_store(1,2), of 0 "Some [9]" "[0]"] no
  have b: "\<exists>st'. flat_file_get ff_ex st_ex (Some [9]) [0] =
              Some (\<lparr>error = err_item_not_found, count = 0\<rparr>, [0], st')" by auto
  from ex_store a b show ?thesis by (simp add: ex_key_matches)
qed

text \<open>
  C10: Get never changes the store's file: whatever the schedule of faults, the key and
  the state, Get returns, and the bytes of the data file (so every row's status, key and
  value) and the number of rows are the same after the call as before, whether the
  result is success, \<open>err_item_not_found\<close> or an input/output error.
\<close>

theorem get_keeps_file:
  "\<exists>status v' st'. flat_file_get ff st k v = Some (status, v', st') \<and>
      content (data_file st') = content (data_file st) \<and> num_rows ff st' = num_rows ff st"
proof -
  from flat_file_scan_forward_total
  obtain e l r st1 where
    s: "flat_file_scan ff st (- 1) (- 1) uninitialized_row True (flat_file_predicate_key_match k)
         = Some (e, l, r, st1)"
    and c: "content (data_file st1) = content (data_file st)" by blast
  show ?thesis
    using c by (auto simp: flat_file_get_def s Let_def num_rows_def)
qed

section \<open>Insert\<close>

lemma well_formed_other:
  "well_formed ff st \<Longrightarrow> row_size ff dvd length (content (data_file st')) \<Longrightarrow>
   well_formed ff st'"
  unfolding well_formed_def by blast

lemma insert_scan:
  assumes wf: "well_formed ff st" and ok: "fault_free st"
    and slot: "i < num_rows ff st \<and> row_empty ff st i \<and> (\<forall>j<i. \<not> row_empty ff st j)
             \<or> i = num_rows ff st \<and> (\<forall>j<num_rows ff st. \<not> row_empty ff st j)"
  shows "\<exists>e row' st1. flat_file_scan ff st (- 1) (- 1) uninitialized_row True
            flat_file_predicate_empty = Some (e, int i, row', st1)
          \<and> (e = err_ok \<or> e = err_file_hit_eof)
          \<and> scan_keeps (num_buffered ff * row_size ff) st st1"
proof -
  let ?m = "num_rows ff st"
  let ?L = "num_buffered ff * row_size ff"
  let ?c = "content (data_file st)"
  note g = well_formed_geometry [OF wf]
  note len = well_formed_len [OF wf]
  have ff: "faults (data_file st) = []" using ok by (simp add: fault_free_def)
  from slot show ?thesis
  proof
    assume a: "i < ?m \<and> row_empty ff st i \<and> (\<forall>j<i. \<not> row_empty ff st j)"
    have "\<exists>st'. flat_file_scan ff st (- 1) (- 1) uninitialized_row True flat_file_predicate_empty
            = Some (err_ok, int i, buffer_row ff ?c i, st') \<and> scan_keeps ?L st st'"
      by (rule flat_file_scan_forward_found [OF g(1,2,3) _ ff len, where k = 0])
         (use a in \<open>simp_all add: empty_file_row\<close>)
    then show ?thesis by blast
  next
    assume a: "i = ?m \<and> (\<forall>j<?m. \<not> row_empty ff st j)"
    have "\<exists>row' st'. flat_file_scan ff st (- 1) (- 1) uninitialized_row True
              flat_file_predicate_empty
            = Some (err_file_hit_eof, int ?m, row', st') \<and> scan_keeps ?L st st'"
      by (rule flat_file_scan_forward_none [OF g(1,2,3) _ ff len, where k = 0])
         (use a in \<open>simp_all add: empty_file_row\<close>)
    with a show ?thesis by blast
  qed
qed

lemma insert_slot_exists:
  "\<exists>i. i < num_rows ff st \<and> row_empty ff st i \<and> (\<forall>j<i. \<not> row_empty ff st j)
       \<or> i = num_rows ff st \<and> (\<forall>j<num_rows ff st. \<not> row_empty ff st j)"
proof (cases "\<exists>j<num_rows ff st. row_empty ff st j")
  case True
  let ?m = "num_rows ff st"
  define i0 where "i0 = (LEAST j. j < ?m \<and> row_empty ff st j)"
  from True obtain j where j: "j < ?m \<and> row_empty ff st j" by blast
  then have a: "i0 < ?m \<and> row_empty ff st i0" unfolding i0_def by (rule LeastI)
  have b: "\<not> row_empty ff st j'" if "j' < i0" for j'
  proof
    assume "row_empty ff st j'"
    with that a have "j' < ?m \<and> row_empty ff st j'" by simp
    then have "i0 \<le> j'" unfolding i0_def by (rule Least_le)
    with that show False by simp
  qed
  from a b show ?thesis by blast
next
  case False
  then show ?thesis by blast
qed

lemma write_row_errors:
  "flat_file_write_row ff st loc row = (e, st2) \<Longrightarrow>
   e = err_ok \<or> e = err_file_bad_seek \<or> e = err_file_incomplete_write"
  by (auto simp: flat_file_write_row_def split: prod.splits if_splits)

text \<open>Whatever the key, the value and their sizes, Insert does not answer "not found".\<close>

lemma insert_not_not_found:
  assumes wf: "well_formed ff st" and ok: "fault_free st"
  shows "\<exists>status st'. flat_file_insert ff st k v = Some (status, st')
      \<and> error status \<noteq> err_item_not_found"
proof -
  from insert_slot_exists [of ff st] obtain i where
    slot: "i < num_rows ff st \<and> row_empty ff st i \<and> (\<forall>j<i. \<not> row_empty ff st j)
             \<or> i = num_rows ff st \<and> (\<forall>j<num_rows ff st. \<not> row_empty ff st j)" ..
  from insert_scan [OF wf ok slot] obtain e row' st1 where
    s: "flat_file_scan ff st (- 1) (- 1) uninitialized_row True flat_file_predicate_empty
          = Some (e, int i, row', st1)"
    and e: "e = err_ok \<or> e = err_file_hit_eof" by blast
  obtain e' st2 where
    w: "flat_file_write_row ff st1 (int i)
          \<lparr>row_status = FLAT_FILE_STATUS_OCCUPIED, key = k, val = v\<rparr> = (e', st2)"
    by (cases "flat_file_write_row ff st1 (int i)
          \<lparr>row_status = FLAT_FILE_STATUS_OCCUPIED, key = k, val = v\<rparr>")
  from write_row_errors [OF w] e show ?thesis
    by (auto simp: flat_file_insert_def s w ION_STATUS_INITIALIZE_def)
qed

lemma insert_at:
  assumes wf: "well_formed ff st" and ok: "fault_free st"
    and ks: "0 < key_size ff" and vs: "0 < value_size ff"
    and kb: "length kb = key_size ff" and vb: "length vb = value_size ff"
    and slot: "i < num_rows ff st \<and> row_empty ff st i \<and> (\<forall>j<i. \<not> row_empty ff st j)
             \<or> i = num_rows ff st \<and> (\<forall>j<num_rows ff st. \<not> row_empty ff st j)"
  shows "\<exists>st'. flat_file_insert ff st (Some kb) (Some vb)
                 = Some (\<lparr>error = err_ok, count = 1\<rparr>, st')
      \<and> file_row ff st' i
          = \<lparr>row_status = FLAT_FILE_STATUS_OCCUPIED, key = Some kb, val = Some vb\<rparr>
      \<and> (\<forall>j<num_rows ff st. j \<noteq> i \<longrightarrow> file_row ff st' j = file_row ff st j)
      \<and> num_rows ff st' = (if i < num_rows ff st then num_rows ff st else num_rows ff st + 1)
      \<and> well_formed ff st' \<and> fault_free st'"
proof -
  let ?m = "num_rows ff st"
  let ?r = "row_size ff"
  let ?L = "num_buffered ff * ?r"
  let ?c = "content (data_file st)"
  let ?w = "FLAT_FILE_STATUS_OCCUPIED # kb @ vb"
  note g = well_formed_geometry [OF wf]
  note len = well_formed_len [OF wf]
  have ff: "faults (data_file st) = []" using ok by (simp add: fault_free_def)
  have r: "0 < ?r" using g(1) by simp
  have lw: "length ?w = ?r" using g(1) kb vb by simp
  have im: "i \<le> ?m" using slot by auto
  from insert_scan [OF wf ok slot]
  have "\<exists>e row' st1. flat_file_scan ff st (- 1) (- 1) uninitialized_row True
            flat_file_predicate_empty = Some (e, int i, row', st1)
          \<and> (e = err_ok \<or> e = err_file_hit_eof) \<and> scan_keeps ?L st st1" .
  then obtain e row' st1 where
    s: "flat_file_scan ff st (- 1) (- 1) uninitialized_row True flat_file_predicate_empty
          = Some (e, int i, row', st1)"
    and e: "e = err_ok \<or> e = err_file_hit_eof" and keep: "scan_keeps ?L st st1" by blast
  note c1 = scan_keeps_content [OF keep] and f1 = scan_keeps_faults [OF keep]
  have "i * ?r \<le> ?m * ?r" using im by (rule mult_le_mono1)
  then have p: "i * ?r \<le> length ?c" using len by simp
  define st2 where "st2 = st1\<lparr>data_file := (data_file st1)
            \<lparr>content := write_at ?c (i * ?r) ?w,
             fpos := i * ?r + 1 + key_size ff + value_size ff\<rparr>\<rparr>"
  have w: "flat_file_write_row ff st1 (int i)
      \<lparr>row_status = FLAT_FILE_STATUS_OCCUPIED, key = Some kb, val = Some vb\<rparr> = (err_ok, st2)"
    using write_row_full [OF f1 ks vs kb vb, of i FLAT_FILE_STATUS_OCCUPIED] p c1
    by (simp add: st2_def)
  have ins: "flat_file_insert ff st (Some kb) (Some vb) = Some (\<lparr>error = err_ok, count = 1\<rparr>, st2)"
    using e by (auto simp: flat_file_insert_def s w ION_STATUS_INITIALIZE_def)
  have c2: "content (data_file st2) = write_at ?c (i * ?r) ?w" by (simp add: st2_def)
  have row_i: "file_row ff st2 i
      = \<lparr>row_status = FLAT_FILE_STATUS_OCCUPIED, key = Some kb, val = Some vb\<rparr>"
    unfolding file_row_def c2 by (rule buffer_row_write_full [OF g(1) p kb vb])
  have others: "file_row ff st2 j = file_row ff st j" if j: "j < ?m" "j \<noteq> i" for j
    unfolding file_row_def c2
  proof (rule buffer_row_write_other [OF g(1) p])
    have "j * ?r + ?r \<le> ?m * ?r" using j(1) by (rule rows_le)
    then show "j * ?r + ?r \<le> length ?c" using len by simp
    show "j * ?r + ?r \<le> i * ?r \<or> i * ?r + length ?w \<le> j * ?r"
    proof (cases "j < i")
      case True
      then have "j * ?r + ?r \<le> i * ?r" by (rule rows_le)
      then show ?thesis ..
    next
      case False
      with j(2) have "i < j" by simp
      then have "i * ?r + ?r \<le> j * ?r" by (rule rows_le)
      then show ?thesis by (simp only: lw simp_thms)
    qed
  qed
  have l2: "length (content (data_file st2)) = (if i < ?m then ?m else ?m + 1) * ?r"
  proof (cases "i < ?m")
    case True
    then have "i * ?r + ?r \<le> ?m * ?r" by (rule rows_le)
    with True show ?thesis unfolding c2 length_write_at [OF p] lw using len by simp
  next
    case False
    with im have "i = ?m" by simp
    then show ?thesis unfolding c2 length_write_at [OF p] lw using len by simp
  qed
  have n2: "num_rows ff st2 = (if i < ?m then ?m else ?m + 1)"
    unfolding num_rows_def l2 using r by simp
  have "?r dvd length (content (data_file st2))" unfolding l2 by simp
  with wf have wf2: "well_formed ff st2" by (rule well_formed_other)
  have ok2: "fault_free st2" using f1 by (simp add: fault_free_def st2_def)
  from ins row_i others n2 wf2 ok2 show ?thesis by blast
qed

lemma insert_succeeds:
  assumes wf: "well_formed ff st" and ok: "fault_free st"
    and ks: "0 < key_size ff" and vs: "0 < value_size ff"
    and kb: "length kb = key_size ff" and vb: "length vb = value_size ff"
  shows "\<exists>st'. flat_file_insert ff st (Some kb) (Some vb)
                  = Some (\<lparr>error = err_ok, count = 1\<rparr>, st')"
proof -
  from insert_slot_exists [of ff st] obtain i where
    "i < num_rows ff st \<and> row_empty ff st i \<and> (\<forall>j<i. \<not> row_empty ff st j)
       \<or> i = num_rows ff st \<and> (\<forall>j<num_rows ff st. \<not> row_empty ff st j)" ..
  from insert_at [OF wf ok ks vs kb vb this] show ?thesis by blast
qed

text \<open>
  With values of no bytes, or keys of no bytes, the \<open>fwrite\<close> of that field returns zero
  and Insert reports \<open>err_file_incomplete_write\<close> with count 0, although row 0 is empty
  and no library call is made to fail.
\<close>

theorem insert_fails_without_value_or_key_bytes:
  "well_formed ff_v0 st_v0 \<and> fault_free st_v0 \<and> row_empty ff_v0 st_v0 0
   \<and> flat_file_insert ff_v0 st_v0 (Some [3]) (Some [])
     = Some (\<lparr>error = err_file_incomplete_write, count = 0\<rparr>,
             \<lparr>data_file = \<lparr>content = [1, 3], fpos = 2, faults = []\<rparr>, buffer = [0, 9, 0, 0]\<rparr>)
   \<and> well_formed ff_k0 st_k0 \<and> fault_free st_k0 \<and> row_empty ff_k0 st_k0 0
   \<and> flat_file_insert ff_k0 st_k0 (Some []) (Some [3])
     = Some (\<lparr>error = err_file_incomplete_write, count = 0\<rparr>,
             \<lparr>data_file = \<lparr>content = [1, 9], fpos = 1, faults = []\<rparr>, buffer = [0, 9, 0, 0]\<rparr>)"
  by code_simp

text \<open>
  C3 (as amended): in a store whose keys and values have at least one byte, Insert
  succeeds with count 1 whenever no library call fails (the file can grow); the row it
  writes, occupied and with the given key and value, is the lowest empty row if there is
  one, and otherwise the new row whose index is the number of rows so far. No other row
  changes.
\<close>

theorem insert_lowest_empty_or_append:
  assumes wf: "well_formed ff st" and ok: "fault_free st"
    and ks: "1 \<le> key_size ff" and vs: "1 \<le> value_size ff"
    and kb: "length kb = key_size ff" and vb: "length vb = value_size ff"
  shows "(\<exists>st'. flat_file_insert ff st (Some kb) (Some vb)
                  = Some (\<lparr>error = err_ok, count = 1\<rparr>, st'))
     \<and> (i < num_rows ff st \<and> row_empty ff st i \<and> (\<forall>j<i. \<not> row_empty ff st j)
          \<or> i = num_rows ff st \<and> (\<forall>j<num_rows ff st. \<not> row_empty ff st j)
        \<longrightarrow> (\<exists>st'. flat_file_insert ff st (Some kb) (Some vb)
                     = Some (\<lparr>error = err_ok, count = 1\<rparr>, st')
              \<and> file_row ff st' i
                  = \<lparr>row_status = FLAT_FILE_STATUS_OCCUPIED, key = Some kb, val = Some vb\<rparr>
              \<and> (\<forall>j<num_rows ff st. j \<noteq> i \<longrightarrow> file_row ff st' j = file_row ff st j)
              \<and> num_rows ff st'
                  = (if i < num_rows ff st then num_rows ff st else num_rows ff st + 1)
              \<and> well_formed ff st' \<and> fault_free st'))"
proof -
  have ks': "0 < key_size ff" and vs': "0 < value_size ff" using ks vs by simp_all
  from insert_succeeds [OF wf ok ks' vs' kb vb] insert_at [OF wf ok ks' vs' kb vb, of i]
  show ?thesis by (intro conjI impI)
qed

lemma ex_full: "well_formed ff_ex st_full" "fault_free st_full" "num_rows ff_ex st_full = 2"
  by code_simp+

lemma ex_row_empty:
  "\<not> row_empty ff_ex st_ex 0" "row_empty ff_ex st_ex (Suc 0)"
  "\<not> row_empty ff_ex st_full 0" "\<not> row_empty ff_ex st_full (Suc 0)"
  by code_simp+

lemma less_2_cases: "j < (2::nat) \<longleftrightarrow> j = 0 \<or> j = Suc 0"
  by auto

theorem insert_lowest_empty_or_append_witness:
  "well_formed ff_ex st_ex \<and> fault_free st_ex \<and> well_formed ff_ex st_full \<and> fault_free st_full \<and>
   1 \<le> key_size ff_ex \<and> 1 \<le> value_size ff_ex \<and>
   length [3 :: byte] = key_size ff_ex \<and> length [2 :: byte] = value_size ff_ex \<and>
   1 < num_rows ff_ex st_ex \<and> row_empty ff_ex st_ex 1 \<and> \<not> row_empty ff_ex st_ex 0 \<and>
   (\<exists>st'. flat_file_insert ff_ex st_ex (Some [3]) (Some [2])
             = Some (\<lparr>error = err_ok, count = 1\<rparr>, st')
        \<and> file_row ff_ex st' 1
            = \<lparr>row_status = FLAT_FILE_STATUS_OCCUPIED, key = Some [3], val = Some [2]\<rparr>
        \<and> num_rows ff_ex st' = 4) \<and>
   2 = num_rows ff_ex st_full \<and> \<not> row_empty ff_ex st_full 0 \<and> \<not> row_empty ff_ex st_full 1 \<and>
   (\<exists>st'. flat_file_insert ff_ex st_full (Some [3]) (Some [2])
             = Some (\<lparr>error = err_ok, count = 1\<rparr>, st')
        \<and> file_row ff_ex st' 2
            = \<lparr>row_status = FLAT_FILE_STATUS_OCCUPIED, key = Some [3], val = Some [2]\<rparr>
        \<and> num_rows ff_ex st' = 3)"
proof -
  have l: "length [3 :: byte] = key_size ff_ex" "length [2 :: byte] = value_size ff_ex"
    by (simp_all add: ff_ex_def)
  have z: "1 \<le> key_size ff_ex" "1 \<le> value_size ff_ex"
    by (simp_all add: ff_ex_def)
  have a: "1 < num_rows ff_ex st_ex \<and> row_empty ff_ex st_ex 1
      \<and> (\<forall>j<1. \<not> row_empty ff_ex st_ex j)
    \<or> 1 = num_rows ff_ex st_ex \<and> (\<forall>j<num_rows ff_ex st_ex. \<not> row_empty ff_ex st_ex j)"
    by (simp add: ex_store ex_row_empty)
  have b: "2 < num_rows ff_ex st_full \<and> row_empty ff_ex st_full 2
      \<and> (\<forall>j<2. \<not> row_empty ff_ex st_full j)
    \<or> 2 = num_rows ff_ex st_full \<and> (\<forall>j<num_rows ff_ex st_full. \<not> row_empty ff_ex st_full j)"
    by (simp add: ex_full ex_row_empty less_2_cases)
  from insert_lowest_empty_or_append [OF ex_store(1,2) z l, of 1] a
  have A: "\<exists>st'. flat_file_insert ff_ex st_ex (Some [3]) (Some [2])
             = Some (\<lparr>error = err_ok, count = 1\<rparr>, st')
        \<and> file_row ff_ex st' 1
            = \<lparr>row_status = FLAT_FILE_STATUS_OCCUPIED, key = Some [3], val = Some [2]\<rparr>
        \<and> num_rows ff_ex st' = 4"
    by (auto simp: ex_store)
  from insert_lowest_empty_or_append [OF ex_full(1,2) z l, of 2] b
  have B: "\<exists>st'. flat_file_insert ff_ex st_full (Some [3]) (Some [2])
             = Some (\<lparr>error = err_ok, count = 1\<rparr>, st')
        \<and> file_row ff_ex st' 2
            = \<lparr>row_status = FLAT_FILE_STATUS_OCCUPIED, key = Some [3], val = Some [2]\<rparr>
        \<and> num_rows ff_ex st' = 3"
    by (auto simp: ex_full)
  show ?thesis by (intro conjI A B) code_simp+
qed

section \<open>The repeated scan of Delete and Update\<close>

lemma filter_upt_first:
  assumes "k \<le> i" "i < m" "P i" "\<And>j. k \<le> j \<Longrightarrow> j < i \<Longrightarrow> \<not> P j"
  shows "filter P [k..<m] = i # filter P [Suc i..<m]"
proof -
  have "[k..<m] = [k..<i] @ [i..<m]"
    using assms(1,2) by (metis le_add_diff_inverse less_imp_le_nat upt_add_eq_append)
  moreover have "[i..<m] = i # [Suc i..<m]" using assms(2) by (rule upt_conv_Cons)
  moreover have "filter P [k..<i] = []" using assms(4) by (auto simp: filter_empty_conv)
  ultimately show ?thesis using assms(3) by simp
qed

lemma filter_upt_none:
  assumes "\<And>j. k \<le> j \<Longrightarrow> j < m \<Longrightarrow> \<not> P j"
  shows "filter P [k..<m] = []"
  using assms by (auto simp: filter_empty_conv)

lemma first_match_cases:
  fixes P :: "nat \<Rightarrow> bool"
  obtains (none) "\<And>j. k \<le> j \<Longrightarrow> j < m \<Longrightarrow> \<not> P j"
  | (first) i where "k \<le> i" "i < m" "P i" "\<And>j. k \<le> j \<Longrightarrow> j < i \<Longrightarrow> \<not> P j"
proof (cases "\<exists>j. k \<le> j \<and> j < m \<and> P j")
  case False
  then show ?thesis by (intro none) blast
next
  case True
  define i where "i = (LEAST j. k \<le> j \<and> j < m \<and> P j)"
  from True obtain j where "k \<le> j \<and> j < m \<and> P j" by blast
  then have a: "k \<le> i \<and> i < m \<and> P i" unfolding i_def by (rule LeastI)
  have b: "\<not> P j'" if "k \<le> j'" "j' < i" for j'
  proof
    assume "P j'"
    with that a have "k \<le> j' \<and> j' < m \<and> P j'" by simp
    then have "i \<le> j'" unfolding i_def by (rule Least_le)
    with that show False by simp
  qed
  from a b show ?thesis by (intro first [of i]) auto
qed

text \<open>
  The loop of Delete and the loop of Update differ only in the row they write. Both satisfy the
  unfolding equation below; \<open>wbytes\<close> are the bytes their write puts at the start of the
  matched row, and \<open>W\<close> is what that does to the row.
\<close>

lemma mutate_loop_correct:
  fixes loop :: "ion_fpos \<Rightarrow> ion_flat_file_row \<Rightarrow> ion_status \<Rightarrow> flat_file_state \<Rightarrow>
                 (ion_err \<times> ion_status \<times> flat_file_state) option"
  assumes unfold: "\<And>loc row status st. loop loc row status st =
     (case flat_file_scan ff st loc loc row True (flat_file_predicate_key_match k) of
        None \<Rightarrow> None
      | Some (err, loc', row', st1) \<Rightarrow>
          if err_ok = err then
            (case flat_file_write_row ff st1 loc' w of
               (err', st2) \<Rightarrow>
                 loop (loc' + 1) row' (status\<lparr>count := count status + 1\<rparr>) st2)
          else Some (err, status, st1))"
    and rs: "row_size ff = 1 + key_size ff + value_size ff"
    and nb: "0 < num_buffered ff" and sod: "start_of_data ff = 0"
    and wlen: "length wbytes \<le> row_size ff"
    and "write": "\<And>st i. faults (data_file st) = [] \<Longrightarrow>
        i * row_size ff + row_size ff \<le> length (content (data_file st)) \<Longrightarrow>
        \<exists>e st2. flat_file_write_row ff st (int i) w = (e, st2) \<and> faults (data_file st2) = [] \<and>
           content (data_file st2) = write_at (content (data_file st)) (i * row_size ff) wbytes"
    and W: "\<And>c i. i * row_size ff + row_size ff \<le> length c \<Longrightarrow>
        buffer_row ff (write_at c (i * row_size ff) wbytes) i = W (buffer_row ff c i)"
  shows "faults (data_file st) = [] \<Longrightarrow>
    length (content (data_file st)) = m * row_size ff \<Longrightarrow> n0 \<le> m \<Longrightarrow>
    loc = - 1 \<and> n0 = 0 \<or> loc = int n0 \<Longrightarrow>
    \<exists>st'. loop loc row status st =
        Some (err_file_hit_eof,
              status\<lparr>count := count status + int (length (filter (key_matches ff st k) [n0..<m]))\<rparr>,
              st')
      \<and> faults (data_file st') = []
      \<and> length (content (data_file st')) = m * row_size ff
      \<and> (\<forall>j<m. file_row ff st' j =
            (if n0 \<le> j \<and> key_matches ff st k j then W (file_row ff st j) else file_row ff st j))
      \<and> ((\<forall>j. n0 \<le> j \<and> j < m \<longrightarrow> \<not> key_matches ff st k j) \<longrightarrow>
            content (data_file st') = content (data_file st))"
proof (induction "m - n0" arbitrary: n0 loc row status st rule: less_induct)
  case less
  let ?r = "row_size ff"
  let ?c = "content (data_file st)"
  let ?L = "num_buffered ff * ?r"
  let ?p = "flat_file_predicate_key_match k"
  note ff = less.prems(1) and len = less.prems(2) and n0 = less.prems(3) and start = less.prems(4)
  have L: "?L \<le> ?L \<or> m * ?r \<le> ?L" by simp
  show ?case
  proof (cases rule: first_match_cases [of n0 m "key_matches ff st k"])
    case none
    have "\<exists>row' st'. flat_file_scan ff st loc loc row True ?p
                = Some (err_file_hit_eof, int m, row', st') \<and> scan_keeps ?L st st'"
      by (rule flat_file_scan_forward_none [OF rs nb sod L ff len start n0])
         (use none in \<open>simp add: key_match_file_row\<close>)
    then obtain row' st1 where
      s: "flat_file_scan ff st loc loc row True ?p = Some (err_file_hit_eof, int m, row', st1)"
      and keep: "scan_keeps ?L st st1" by blast
    note c1 = scan_keeps_content [OF keep] and f1 = scan_keeps_faults [OF keep]
    have l: "loop loc row status st = Some (err_file_hit_eof, status, st1)"
      by (subst unfold) (simp add: s)
    have z: "filter (key_matches ff st k) [n0..<m] = []"
      using none by (rule filter_upt_none)
    have rows: "file_row ff st1 j = file_row ff st j" for j
      by (simp add: file_row_def c1)
    show ?thesis
      using l f1 c1 len none by (auto simp: z rows)
  next
    case (first i)
    have "\<exists>st'. flat_file_scan ff st loc loc row True ?p
                = Some (err_ok, int i, buffer_row ff ?c i, st') \<and> scan_keeps ?L st st'"
      by (rule flat_file_scan_forward_found [OF rs nb sod L ff len start first(1,2)])
         (use first in \<open>simp_all add: key_match_file_row\<close>)
    then obtain st1 where
      s: "flat_file_scan ff st loc loc row True ?p = Some (err_ok, int i, buffer_row ff ?c i, st1)"
      and keep: "scan_keeps ?L st st1" by blast
    note c1 = scan_keeps_content [OF keep] and f1 = scan_keeps_faults [OF keep]
    have ir: "i * ?r + ?r \<le> m * ?r" using first(2) by (rule rows_le)
    then have ir': "i * ?r + ?r \<le> length (content (data_file st1))"
      unfolding c1 len .
    from "write" [OF f1 ir'] obtain e st2 where
      w: "flat_file_write_row ff st1 (int i) w = (e, st2)" and f2: "faults (data_file st2) = []"
      and c2: "content (data_file st2) = write_at ?c (i * ?r) wbytes"
      using c1 by auto
    have p: "i * ?r \<le> length ?c" using ir len by linarith
    have "i * ?r + length wbytes \<le> length ?c" using ir len wlen by linarith
    then have l2: "length (content (data_file st2)) = m * ?r"
      unfolding c2 length_write_at [OF p] using len by simp
    have l: "loop loc row status st =
        loop (int (Suc i)) (buffer_row ff ?c i) (status\<lparr>count := count status + 1\<rparr>) st2"
      by (subst unfold) (simp add: s w add.commute)
    have other: "file_row ff st2 j = file_row ff st j" if j: "j < m" "j \<noteq> i" for j
      unfolding file_row_def c2
    proof (rule buffer_row_write_other [OF rs p])
      have "j * ?r + ?r \<le> m * ?r" using j(1) by (rule rows_le)
      then show "j * ?r + ?r \<le> length ?c" unfolding len .
      show "j * ?r + ?r \<le> i * ?r \<or> i * ?r + length wbytes \<le> j * ?r"
      proof (cases "j < i")
        case True
        then have "j * ?r + ?r \<le> i * ?r" by (rule rows_le)
        then show ?thesis ..
      next
        case False
        with j(2) have "i < j" by simp
        then have "i * ?r + ?r \<le> j * ?r" by (rule rows_le)
        with wlen have "i * ?r + length wbytes \<le> j * ?r" by linarith
        then show ?thesis ..
      qed
    qed
    have same: "file_row ff st2 i = W (file_row ff st i)"
      unfolding file_row_def c2 by (rule W) (simp only: len ir)
    have km: "key_matches ff st2 k j = key_matches ff st k j" if "j < m" "j \<noteq> i" for j
      using other [OF that] by (simp add: key_matches_def)
    have "\<exists>st'. loop (int (Suc i)) (buffer_row ff ?c i) (status\<lparr>count := count status + 1\<rparr>) st2 =
        Some (err_file_hit_eof,
          (status\<lparr>count := count status + 1\<rparr>)\<lparr>count := count (status\<lparr>count := count status + 1\<rparr>)
             + int (length (filter (key_matches ff st2 k) [Suc i..<m]))\<rparr>, st')
      \<and> faults (data_file st') = []
      \<and> length (content (data_file st')) = m * ?r
      \<and> (\<forall>j<m. file_row ff st' j =
            (if Suc i \<le> j \<and> key_matches ff st2 k j then W (file_row ff st2 j) else file_row ff st2 j))
      \<and> ((\<forall>j. Suc i \<le> j \<and> j < m \<longrightarrow> \<not> key_matches ff st2 k j) \<longrightarrow>
            content (data_file st') = content (data_file st2))"
      by (rule less.hyps) (use first f2 l2 in auto)
    then obtain st' where
      res: "loop (int (Suc i)) (buffer_row ff ?c i) (status\<lparr>count := count status + 1\<rparr>) st2 =
        Some (err_file_hit_eof,
          status\<lparr>count := count status + 1
             + int (length (filter (key_matches ff st2 k) [Suc i..<m]))\<rparr>, st')"
      and f': "faults (data_file st') = []" and l': "length (content (data_file st')) = m * ?r"
      and rows': "\<And>j. j < m \<Longrightarrow> file_row ff st' j =
            (if Suc i \<le> j \<and> key_matches ff st2 k j then W (file_row ff st2 j) else file_row ff st2 j)"
      by auto
    have fe: "filter (key_matches ff st2 k) [Suc i..<m] = filter (key_matches ff st k) [Suc i..<m]"
      by (rule filter_cong) (auto simp: km)
    have fs: "filter (key_matches ff st k) [n0..<m] = i # filter (key_matches ff st k) [Suc i..<m]"
      using first by (rule filter_upt_first)
    have cnt: "count status + 1 + int (length (filter (key_matches ff st2 k) [Suc i..<m]))
        = count status + int (length (filter (key_matches ff st k) [n0..<m]))"
      unfolding fe fs by simp
    have rows: "file_row ff st' j =
            (if n0 \<le> j \<and> key_matches ff st k j then W (file_row ff st j) else file_row ff st j)"
      if j: "j < m" for j
    proof (cases "j = i")
      case True
      with rows' [OF j] same first show ?thesis by simp
    next
      case False
      show ?thesis
      proof (cases "i < j")
        case True
        with rows' [OF j] other [OF j False] km [OF j False] first(1) show ?thesis by simp
      next
        case ge: False
        with False have lt: "j < i" by simp
        then have "n0 \<le> j \<Longrightarrow> \<not> key_matches ff st k j" using first(4) by simp
        with rows' [OF j] other [OF j False] lt show ?thesis by auto
      qed
    qed
    have "\<not> (\<forall>j. n0 \<le> j \<and> j < m \<longrightarrow> \<not> key_matches ff st k j)" using first by blast
    with l res cnt f' l' rows show ?thesis by auto
  qed
qed

lemma matching_rows_empty:
  "matching_rows ff st k = [] \<longleftrightarrow> (\<forall>j<num_rows ff st. \<not> key_matches ff st k j)"
  by (auto simp: matching_rows_def filter_empty_conv)

lemma status_distinct: "FLAT_FILE_STATUS_EMPTY \<noteq> FLAT_FILE_STATUS_OCCUPIED"
  by (simp add: FLAT_FILE_STATUS_EMPTY_def FLAT_FILE_STATUS_OCCUPIED_def)

lemma delete_loop_result:
  assumes wf: "well_formed ff st" and ok: "fault_free st"
  shows "\<exists>st'. delete_loop ff k (- 1) row status st =
        Some (err_file_hit_eof,
              status\<lparr>count := count status + int (length (matching_rows ff st k))\<rparr>, st')
      \<and> faults (data_file st') = []
      \<and> length (content (data_file st')) = num_rows ff st * row_size ff
      \<and> (\<forall>j<num_rows ff st. file_row ff st' j =
            (if key_matches ff st k j
             then (file_row ff st j)\<lparr>row_status := FLAT_FILE_STATUS_EMPTY\<rparr>
             else file_row ff st j))
      \<and> ((\<forall>j<num_rows ff st. \<not> key_matches ff st k j) \<longrightarrow>
            content (data_file st') = content (data_file st))"
proof -
  note g = well_formed_geometry [OF wf]
  note len = well_formed_len [OF wf]
  have ff: "faults (data_file st) = []" using ok by (simp add: fault_free_def)
  have r1: "length [FLAT_FILE_STATUS_EMPTY] \<le> row_size ff" using g(1) by simp
  from mutate_loop_correct [where loop = "delete_loop ff k" and ff = ff and k = k
      and w = "\<lparr>row_status = FLAT_FILE_STATUS_EMPTY, key = None, val = None\<rparr>"
      and wbytes = "[FLAT_FILE_STATUS_EMPTY]"
      and W = "\<lambda>row. row\<lparr>row_status := FLAT_FILE_STATUS_EMPTY\<rparr>"
      and st = st and m = "num_rows ff st" and ?n0.0 = 0 and loc = "- 1" and row = row
      and status = status,
      OF delete_loop.simps g(1,2,3) r1 _ _ ff len]
  show ?thesis
    unfolding matching_rows_def
    by (simp add: write_row_status buffer_row_write_status [OF g(1)])
qed

lemma update_loop_result:
  assumes wf: "well_formed ff st" and ok: "fault_free st"
    and ks: "0 < key_size ff"
    and kb: "length kb = key_size ff" and vb: "length vb = value_size ff"
  shows "\<exists>st'. update_loop ff (Some kb) (Some vb) (- 1) row status st =
        Some (err_file_hit_eof,
              status\<lparr>count := count status + int (length (matching_rows ff st (Some kb)))\<rparr>, st')
      \<and> faults (data_file st') = []
      \<and> length (content (data_file st')) = num_rows ff st * row_size ff
      \<and> (\<forall>j<num_rows ff st. file_row ff st' j =
            (if key_matches ff st (Some kb) j
             then \<lparr>row_status = FLAT_FILE_STATUS_OCCUPIED, key = Some kb, val = Some vb\<rparr>
             else file_row ff st j))
      \<and> ((\<forall>j<num_rows ff st. \<not> key_matches ff st (Some kb) j) \<longrightarrow>
            content (data_file st') = content (data_file st))"
proof -
  note g = well_formed_geometry [OF wf]
  note len = well_formed_len [OF wf]
  have ff: "faults (data_file st) = []" using ok by (simp add: fault_free_def)
  let ?w = "FLAT_FILE_STATUS_OCCUPIED # kb @ vb"
  have r1: "length ?w \<le> row_size ff" using g(1) kb vb by simp
  have wr: "\<exists>e st2. flat_file_write_row ff st (int i)
          \<lparr>row_status = FLAT_FILE_STATUS_OCCUPIED, key = Some kb, val = Some vb\<rparr> = (e, st2)
        \<and> faults (data_file st2) = []
        \<and> content (data_file st2) = write_at (content (data_file st)) (i * row_size ff) ?w"
    if "faults (data_file st) = []"
      and "i * row_size ff + row_size ff \<le> length (content (data_file st))" for st i
  proof -
    from that(2) have p: "i * row_size ff \<le> length (content (data_file st))" by simp
    show ?thesis by (rule write_row_full_content [OF that(1) ks kb vb p])
  qed
  have W: "buffer_row ff (write_at c (i * row_size ff) ?w) i
      = \<lparr>row_status = FLAT_FILE_STATUS_OCCUPIED, key = Some kb, val = Some vb\<rparr>"
    if "i * row_size ff + row_size ff \<le> length c" for c i
  proof (rule buffer_row_write_full [OF g(1) _ kb vb])
    from that show "i * row_size ff \<le> length c" by simp
  qed
  from mutate_loop_correct [where loop = "update_loop ff (Some kb) (Some vb)" and ff = ff
      and k = "Some kb"
      and w = "\<lparr>row_status = FLAT_FILE_STATUS_OCCUPIED, key = Some kb, val = Some vb\<rparr>"
      and wbytes = ?w
      and W = "\<lambda>row. \<lparr>row_status = FLAT_FILE_STATUS_OCCUPIED, key = Some kb, val = Some vb\<rparr>"
      and st = st and m = "num_rows ff st" and ?n0.0 = 0 and loc = "- 1" and row = row
      and status = status,
      OF update_loop.simps g(1,2,3) r1 wr W ff len]
  show ?thesis
    unfolding matching_rows_def by simp
qed

section \<open>Delete and Update\<close>

lemma delete_result:
  assumes wf: "well_formed ff st" and ok: "fault_free st"
  shows "\<exists>st'. flat_file_delete ff st k =
        Some (\<lparr>error = (if matching_rows ff st k = [] then err_item_not_found else err_ok),
               count = int (length (matching_rows ff st k))\<rparr>, st')
      \<and> well_formed ff st' \<and> fault_free st' \<and> num_rows ff st' = num_rows ff st
      \<and> (\<forall>j<num_rows ff st. file_row ff st' j =
            (if key_matches ff st k j
             then (file_row ff st j)\<lparr>row_status := FLAT_FILE_STATUS_EMPTY\<rparr>
             else file_row ff st j))
      \<and> (matching_rows ff st k = [] \<longrightarrow> content (data_file st') = content (data_file st))"
proof -
  note g = well_formed_geometry [OF wf]
  from delete_loop_result [OF wf ok, of k uninitialized_row ION_STATUS_INITIALIZE]
  obtain st' where
    l: "delete_loop ff k (- 1) uninitialized_row ION_STATUS_INITIALIZE st =
        Some (err_file_hit_eof,
              ION_STATUS_INITIALIZE\<lparr>count := count ION_STATUS_INITIALIZE
                 + int (length (matching_rows ff st k))\<rparr>, st')"
    and f: "faults (data_file st') = []"
    and len: "length (content (data_file st')) = num_rows ff st * row_size ff"
    and rows: "\<forall>j<num_rows ff st. file_row ff st' j =
            (if key_matches ff st k j
             then (file_row ff st j)\<lparr>row_status := FLAT_FILE_STATUS_EMPTY\<rparr>
             else file_row ff st j)"
    and same: "(\<forall>j<num_rows ff st. \<not> key_matches ff st k j) \<longrightarrow>
            content (data_file st') = content (data_file st)"
    by blast
  have d: "flat_file_delete ff st k =
        Some (\<lparr>error = (if matching_rows ff st k = [] then err_item_not_found else err_ok),
               count = int (length (matching_rows ff st k))\<rparr>, st')"
    using g(4) unfolding flat_file_delete_def Let_def l
    by (simp add: ION_STATUS_INITIALIZE_def)
  have "row_size ff dvd length (content (data_file st'))" unfolding len by simp
  with wf have wf': "well_formed ff st'" by (rule well_formed_other)
  have ok': "fault_free st'" using f by (simp add: fault_free_def)
  have r: "0 < row_size ff" using g(1) by simp
  have n: "num_rows ff st' = num_rows ff st"
    unfolding num_rows_def [of ff st'] len using r by simp
  from d wf' ok' n rows same show ?thesis
    by (auto simp: matching_rows_empty)
qed

lemma update_result:
  assumes wf: "well_formed ff st" and ok: "fault_free st"
    and ks: "0 < key_size ff"
    and kb: "length kb = key_size ff" and vb: "length vb = value_size ff"
    and some: "matching_rows ff st (Some kb) \<noteq> []"
  shows "\<exists>st'. flat_file_update ff st (Some kb) (Some vb) =
        Some (\<lparr>error = err_ok, count = int (length (matching_rows ff st (Some kb)))\<rparr>, st')
      \<and> well_formed ff st' \<and> fault_free st' \<and> num_rows ff st' = num_rows ff st
      \<and> (\<forall>j<num_rows ff st. file_row ff st' j =
            (if key_matches ff st (Some kb) j
             then \<lparr>row_status = FLAT_FILE_STATUS_OCCUPIED, key = Some kb, val = Some vb\<rparr>
             else file_row ff st j))"
proof -
  note g = well_formed_geometry [OF wf]
  from update_loop_result [OF wf ok ks kb vb, of uninitialized_row ION_STATUS_INITIALIZE]
  obtain st' where
    l: "update_loop ff (Some kb) (Some vb) (- 1) uninitialized_row ION_STATUS_INITIALIZE st =
        Some (err_file_hit_eof,
              ION_STATUS_INITIALIZE\<lparr>count := count ION_STATUS_INITIALIZE
                 + int (length (matching_rows ff st (Some kb)))\<rparr>, st')"
    and f: "faults (data_file st') = []"
    and len: "length (content (data_file st')) = num_rows ff st * row_size ff"
    and rows: "\<forall>j<num_rows ff st. file_row ff st' j =
            (if key_matches ff st (Some kb) j
             then \<lparr>row_status = FLAT_FILE_STATUS_OCCUPIED, key = Some kb, val = Some vb\<rparr>
             else file_row ff st j)"
    by blast
  have u: "flat_file_update ff st (Some kb) (Some vb) =
        Some (\<lparr>error = err_ok, count = int (length (matching_rows ff st (Some kb)))\<rparr>, st')"
    using g(4) some unfolding flat_file_update_def Let_def l
    by (simp add: ION_STATUS_INITIALIZE_def)
  have "row_size ff dvd length (content (data_file st'))" unfolding len by simp
  with wf have wf': "well_formed ff st'" by (rule well_formed_other)
  have ok': "fault_free st'" using f by (simp add: fault_free_def)
  have r: "0 < row_size ff" using g(1) by simp
  have n: "num_rows ff st' = num_rows ff st"
    unfolding num_rows_def [of ff st'] len using r by simp
  from u wf' ok' n rows show ?thesis by blast
qed


lemma ex_matching_rows:
  "matching_rows ff_ex st_ex (Some [5]) = [0, 2]" "matching_rows ff_ex st_ex (Some [9]) = []"
  by code_simp+


lemma delete_removes_key:
  assumes wf: "well_formed ff st" and ok: "fault_free st"
    and d: "flat_file_delete ff st k = Some (status, st')"
  shows "well_formed ff st' \<and> fault_free st' \<and>
         (error status = err_ok \<longrightarrow> (\<forall>j<num_rows ff st'. \<not> key_matches ff st' k j))"
proof -
  from delete_result [OF wf ok, of k] d
  have wf': "well_formed ff st'" and ok': "fault_free st'"
    and n: "num_rows ff st' = num_rows ff st"
    and rows: "\<And>j. j < num_rows ff st \<Longrightarrow> file_row ff st' j =
            (if key_matches ff st k j
             then (file_row ff st j)\<lparr>row_status := FLAT_FILE_STATUS_EMPTY\<rparr>
             else file_row ff st j)"
    by auto
  have "\<not> key_matches ff st' k j" if "j < num_rows ff st'" for j
  proof (cases "key_matches ff st k j")
    case True
    with rows [of j] that n have "row_status (file_row ff st' j) = FLAT_FILE_STATUS_EMPTY"
      by simp
    then show ?thesis using status_distinct by (simp add: key_matches_def)
  next
    case False
    with rows [of j] that n have "file_row ff st' j = file_row ff st j" by simp
    with False show ?thesis by (simp add: key_matches_def)
  qed
  with wf' ok' show ?thesis by blast
qed

text \<open>
  When no library call fails: if no occupied row has a key that compares equal to \<open>K\<close>,
  Delete(K) returns \<open>err_item_not_found\<close> with count 0 and leaves the bytes of the file
  as they are; and after a Delete(K) that returned \<open>err_ok\<close>, Get(K) on the resulting
  state returns \<open>err_item_not_found\<close>. The second half needs the absence of faults: the
  section on the departures of the code shows a Delete that reports success and leaves
  the key in the file.
\<close>

lemma delete_absent_and_get_after_delete_without_faults:
  assumes wf: "well_formed ff st" and ok: "fault_free st"
  shows "((\<forall>j<num_rows ff st. \<not> key_matches ff st k j) \<longrightarrow>
            (\<exists>st'. flat_file_delete ff st k
                      = Some (\<lparr>error = err_item_not_found, count = 0\<rparr>, st')
                \<and> content (data_file st') = content (data_file st)))
       \<and> (flat_file_delete ff st k = Some (status, st') \<and> error status = err_ok \<longrightarrow>
            (\<exists>st''. flat_file_get ff st' k v
                      = Some (\<lparr>error = err_item_not_found, count = 0\<rparr>, v, st'')))"
proof (intro conjI impI)
  assume "\<forall>j<num_rows ff st. \<not> key_matches ff st k j"
  then have "matching_rows ff st k = []" by (simp add: matching_rows_empty)
  with delete_result [OF wf ok, of k]
  show "\<exists>st'. flat_file_delete ff st k = Some (\<lparr>error = err_item_not_found, count = 0\<rparr>, st')
                \<and> content (data_file st') = content (data_file st)"
    by auto
next
  assume a: "flat_file_delete ff st k = Some (status, st') \<and> error status = err_ok"
  with delete_removes_key [OF wf ok, of k status st']
  have "well_formed ff st'" "fault_free st'" "\<forall>j<num_rows ff st'. \<not> key_matches ff st' k j"
    by auto
  from get_not_found [OF this, of v]
  show "\<exists>st''. flat_file_get ff st' k v
                      = Some (\<lparr>error = err_item_not_found, count = 0\<rparr>, v, st'')"
    by blast
qed

section \<open>Update of an absent key\<close>

lemma update_absent:
  assumes wf: "well_formed ff st" and ok: "fault_free st"
    and absent: "\<forall>j<num_rows ff st. \<not> key_matches ff st k j"
  shows "flat_file_update ff st k v = flat_file_insert ff st k v"
proof -
  let ?m = "num_rows ff st"
  let ?r = "row_size ff"
  let ?L = "min (num_buffered ff) ?m * ?r"
  note g = well_formed_geometry [OF wf]
  note len = well_formed_len [OF wf]
  have ff: "faults (data_file st) = []" using ok by (simp add: fault_free_def)
  have L: "num_buffered ff * ?r \<le> ?L \<or> ?m * ?r \<le> ?L"
    by (cases "num_buffered ff \<le> ?m") (simp_all add: min_def)
  have "\<exists>row' st'. flat_file_scan ff st (- 1) (- 1) uninitialized_row True
            (flat_file_predicate_key_match k)
          = Some (err_file_hit_eof, int ?m, row', st') \<and> scan_keeps ?L st st'"
    by (rule flat_file_scan_forward_none [OF g(1,2,3) L ff len, where k = 0])
       (use absent in \<open>simp_all add: key_match_file_row\<close>)
  then obtain row' st1 where
    s: "flat_file_scan ff st (- 1) (- 1) uninitialized_row True (flat_file_predicate_key_match k)
          = Some (err_file_hit_eof, int ?m, row', st1)"
    and keep: "scan_keeps ?L st st1" by blast
  have l: "update_loop ff k v (- 1) uninitialized_row ION_STATUS_INITIALIZE st
      = Some (err_file_hit_eof, ION_STATUS_INITIALIZE, st1)"
    by (subst update_loop.simps) (simp add: s)
  have u: "flat_file_update ff st k v = flat_file_insert ff st1 k v"
    using g(4) unfolding flat_file_update_def Let_def l
    by (simp add: ION_STATUS_INITIALIZE_def)
  have same: "flat_file_scan ff st1 (- 1) (- 1) uninitialized_row True flat_file_predicate_empty
      = flat_file_scan ff st (- 1) (- 1) uninitialized_row True flat_file_predicate_empty"
    using keep by (intro scan_forward_same [OF g(1,2,3) ff _ _ len]) (simp_all add: scan_keeps_def)
  have "flat_file_insert ff st1 k v = flat_file_insert ff st k v"
    unfolding flat_file_insert_def same ..
  with u show ?thesis by simp
qed

text \<open>
  C5: if no occupied row has a key that compares equal to \<open>K\<close>, Update(K, V) returns
  what Insert(K, V) returns on the same state: the same status and count and the same
  final state (file, cursor and buffer). That result is never \<open>err_item_not_found\<close>;
  where keys and values have at least one byte it is success with count 1.
\<close>

theorem update_absent_is_insert:
  assumes wf: "well_formed ff st" and ok: "fault_free st"
    and kb: "length kb = key_size ff" and vb: "length vb = value_size ff"
    and absent: "\<forall>j<num_rows ff st. \<not> key_matches ff st (Some kb) j"
  shows "flat_file_update ff st (Some kb) (Some vb) = flat_file_insert ff st (Some kb) (Some vb)
       \<and> (\<exists>status st'. flat_file_update ff st (Some kb) (Some vb) = Some (status, st')
             \<and> error status \<noteq> err_item_not_found)
       \<and> (1 \<le> key_size ff \<and> 1 \<le> value_size ff \<longrightarrow>
            (\<exists>st'. flat_file_update ff st (Some kb) (Some vb)
                   = Some (\<lparr>error = err_ok, count = 1\<rparr>, st')))"
proof -
  note eq = update_absent [OF wf ok absent, of "Some vb"]
  have never: "\<exists>status st'. flat_file_update ff st (Some kb) (Some vb) = Some (status, st')
             \<and> error status \<noteq> err_item_not_found"
    unfolding eq by (rule insert_not_not_found [OF wf ok])
  have success: "\<exists>st'. flat_file_update ff st (Some kb) (Some vb)
                   = Some (\<lparr>error = err_ok, count = 1\<rparr>, st')"
    if "1 \<le> key_size ff \<and> 1 \<le> value_size ff"
  proof -
    from that have "0 < key_size ff" "0 < value_size ff" by simp_all
    from insert_succeeds [OF wf ok this kb vb] show ?thesis unfolding eq .
  qed
  from eq never success show ?thesis by blast
qed

theorem update_absent_is_insert_witness:
  "well_formed ff_ex st_ex \<and> fault_free st_ex \<and>
   length [9 :: byte] = key_size ff_ex \<and> length [3 :: byte] = value_size ff_ex \<and>
   1 \<le> key_size ff_ex \<and> 1 \<le> value_size ff_ex \<and>
   \<not> key_matches ff_ex st_ex (Some [9]) 0 \<and> \<not> key_matches ff_ex st_ex (Some [9]) 1 \<and>
   \<not> key_matches ff_ex st_ex (Some [9]) 2 \<and> \<not> key_matches ff_ex st_ex (Some [9]) 3 \<and>
   flat_file_update ff_ex st_ex (Some [9]) (Some [3])
     = flat_file_insert ff_ex st_ex (Some [9]) (Some [3]) \<and>
   (\<exists>st'. flat_file_update ff_ex st_ex (Some [9]) (Some [3])
             = Some (\<lparr>error = err_ok, count = 1\<rparr>, st'))"
proof -
  have l: "length [9 :: byte] = key_size ff_ex" "length [3 :: byte] = value_size ff_ex"
    by (simp_all add: ff_ex_def)
  have no: "\<forall>j<num_rows ff_ex st_ex. \<not> key_matches ff_ex st_ex (Some [9]) j"
    by (simp add: ex_store less_4_cases ex_key_matches)
  have z: "1 \<le> key_size ff_ex \<and> 1 \<le> value_size ff_ex" by (simp add: ff_ex_def)
  note t = update_absent_is_insert [OF ex_store(1,2) l no]
  have s: "\<exists>st'. flat_file_update ff_ex st_ex (Some [9]) (Some [3])
             = Some (\<lparr>error = err_ok, count = 1\<rparr>, st')"
    using t z by blast
  show ?thesis
    by (intro conjI t [THEN conjunct1] s ex_store(1,2) l z [THEN conjunct1] z [THEN conjunct2])
       (simp_all add: ex_key_matches)
qed

section \<open>Where the code departs from its description\<close>

text \<open>
  C1: a forward exact-key scan from the natural start returns the lowest matching row,
  and a backward scan from the end of the data is to return the highest matching row,
  for every buffer capacity. The code walks the batches backwards but the rows of each
  batch forwards: on a file of two rows with the same key, the forward scan returns row 0,
  and with a buffer of two rows the backward scan returns row 0 as well, although row 1
  matches; with a buffer of one row the backward scan returns row 1.
\<close>

theorem backward_scan_returns_lowest_of_batch:
  "flat_file_scan ff_ex st_dup (- 1) (- 1) uninitialized_row True
       (flat_file_predicate_key_match (Some [5]))
     = Some (err_ok, 0, \<lparr>row_status = 1, key = Some [5], val = Some [7]\<rparr>,
             \<lparr>data_file = \<lparr>content = [1, 5, 7, 1, 5, 8], fpos = 6, faults = []\<rparr>,
              buffer = [1, 5, 7, 1, 5, 8]\<rparr>)
   \<and> flat_file_scan ff_ex st_dup (- 1) (- 1) uninitialized_row False
       (flat_file_predicate_key_match (Some [5]))
     = Some (err_ok, 0, \<lparr>row_status = 1, key = Some [5], val = Some [7]\<rparr>,
             \<lparr>data_file = \<lparr>content = [1, 5, 7, 1, 5, 8], fpos = 6, faults = []\<rparr>,
              buffer = [1, 5, 7, 1, 5, 8]\<rparr>)
   \<and> key_matches ff_ex st_dup (Some [5]) 1
   \<and> num_rows ff_ex st_dup = 2
   \<and> flat_file_scan ff_ex1 st_dup (- 1) (- 1) uninitialized_row False
       (flat_file_predicate_key_match (Some [5]))
     = Some (err_ok, 1, \<lparr>row_status = 1, key = Some [5], val = Some [8]\<rparr>,
             \<lparr>data_file = \<lparr>content = [1, 5, 7, 1, 5, 8], fpos = 6, faults = []\<rparr>,
              buffer = [1, 5, 8, 0, 0, 0]\<rparr>)"
  by code_simp

text \<open>
  C2: every error of the scanner or of the row writer is to reach the caller, with the
  count of the rows already changed. The loop of Delete and the loop of Update drop the
  result of \<open>flat_file_write_row\<close>: when the second write fails at its \<open>fseek\<close> (an
  error that \<open>flat_file_write_row\<close> reports as \<open>err_file_bad_seek\<close>), both operations
  still return \<open>err_ok\<close> with count 2, and row 1 is as it was.
\<close>

theorem delete_update_drop_write_error:
  "flat_file_delete ff_ex (st_dup_failing 12) (Some [5])
     = Some (\<lparr>error = err_ok, count = 2\<rparr>,
             \<lparr>data_file = \<lparr>content = [0, 5, 7, 1, 5, 8], fpos = 6, faults = []\<rparr>,
              buffer = [1, 5, 8, 1, 5, 8]\<rparr>)
   \<and> flat_file_update ff_ex (st_dup_failing 14) (Some [5]) (Some [3])
     = Some (\<lparr>error = err_ok, count = 2\<rparr>,
             \<lparr>data_file = \<lparr>content = [1, 5, 3, 1, 5, 8], fpos = 6, faults = []\<rparr>,
              buffer = [1, 5, 8, 1, 5, 8]\<rparr>)
   \<and> flat_file_write_row ff_ex (st_dup_failing 0) 1
        \<lparr>row_status = FLAT_FILE_STATUS_EMPTY, key = None, val = None\<rparr>
     = (err_file_bad_seek, st_dup)"
  by code_simp

text \<open>
  C9: after a Delete(K) that returned success, Get(K) is to return
  \<open>err_item_not_found\<close>. Since the loop of Delete drops the result of
  \<open>flat_file_write_row\<close>, a Delete whose second write fails still returns \<open>err_ok\<close> with
  count 2 and leaves row 1 occupied with key 5; Get of key 5 on the resulting state
  returns \<open>err_ok\<close> with count 1 and the value 8 of that row.
\<close>

theorem get_finds_key_after_successful_delete:
  "flat_file_delete ff_ex (st_dup_failing 12) (Some [5])
     = Some (\<lparr>error = err_ok, count = 2\<rparr>,
             \<lparr>data_file = \<lparr>content = [0, 5, 7, 1, 5, 8], fpos = 6, faults = []\<rparr>,
              buffer = [1, 5, 8, 1, 5, 8]\<rparr>)
   \<and> flat_file_get ff_ex
        \<lparr>data_file = \<lparr>content = [0, 5, 7, 1, 5, 8], fpos = 6, faults = []\<rparr>,
         buffer = [1, 5, 8, 1, 5, 8]\<rparr> (Some [5]) [0]
     = Some (\<lparr>error = err_ok, count = 1\<rparr>, [8],
             \<lparr>data_file = \<lparr>content = [0, 5, 7, 1, 5, 8], fpos = 6, faults = []\<rparr>,
              buffer = [0, 5, 7, 1, 5, 8]\<rparr>)"
  by code_simp


section \<open>What Update writes into a matched row\<close>

text \<open>
  With the comparator of character arrays the stored key bytes 0, 1 compare equal to the
  target key bytes 0, 2 (the comparison stops at the zero byte). Update with that target
  key leaves the bytes 0, 2 in the row.
\<close>

theorem update_changes_key_bytes:
  "key_matches ff_str st_str (Some [0, 2]) 0
   \<and> flat_file_update ff_str st_str (Some [0, 2]) (Some [9])
     = Some (\<lparr>error = err_ok, count = 1\<rparr>,
             \<lparr>data_file = \<lparr>content = [1, 0, 2, 9], fpos = 4, faults = []\<rparr>,
              buffer = [1, 0, 1, 7, 0, 0, 0, 0]\<rparr>)
   \<and> row_key_bytes ff_str st_str 0 = [0, 1]
   \<and> row_key_bytes ff_str
        \<lparr>data_file = \<lparr>content = [1, 0, 2, 9], fpos = 4, faults = []\<rparr>,
         buffer = [1, 0, 1, 7, 0, 0, 0, 0]\<rparr> 0 = [0, 2]"
  by code_simp

text \<open>
  C6 (as amended): Update(K, V) writes each matched row anew, as the status OCCUPIED, the
  bytes of the target key \<open>K\<close> (of at least one byte) and the value \<open>V\<close>; rows that do not
  match stay as they are.
  So the key bytes of a matched row are unchanged exactly when they were the bytes of
  \<open>K\<close>, which is the case for every comparator that reports equality only between keys of
  the same bytes.
\<close>

theorem update_rewrites_status_key_value:
  assumes wf: "well_formed ff st" and ok: "fault_free st"
    and ks: "1 \<le> key_size ff"
    and kb: "length kb = key_size ff" and vb: "length vb = value_size ff"
    and some: "matching_rows ff st (Some kb) \<noteq> []"
  shows "\<exists>status st'. flat_file_update ff st (Some kb) (Some vb) = Some (status, st')
      \<and> (\<forall>j<num_rows ff st. key_matches ff st (Some kb) j \<longrightarrow>
            row_status (file_row ff st' j) = FLAT_FILE_STATUS_OCCUPIED
            \<and> row_key_bytes ff st' j = kb \<and> row_value_bytes ff st' j = vb
            \<and> (row_key_bytes ff st' j = row_key_bytes ff st j \<longleftrightarrow> row_key_bytes ff st j = kb))
      \<and> (\<forall>j<num_rows ff st. \<not> key_matches ff st (Some kb) j \<longrightarrow>
            file_row ff st' j = file_row ff st j)
      \<and> ((\<forall>x. length x = key_size ff \<and> compare ff (Some kb) (Some x) (key_size ff) = 0
               \<longrightarrow> x = kb) \<longrightarrow>
          (\<forall>j<num_rows ff st. row_key_bytes ff st' j = row_key_bytes ff st j))"
proof -
  note g = well_formed_geometry [OF wf]
  note len = well_formed_len [OF wf]
  have kv: "row_key_bytes ff s j = the (key (file_row ff s j))"
    "row_value_bytes ff s j = the (val (file_row ff s j))" for s j
    by (simp_all add: row_key_bytes_def row_value_bytes_def file_row_def buffer_row_def Let_def)
  from ks have ks': "0 < key_size ff" by simp
  from update_result [OF wf ok ks' kb vb some] obtain st' where
    u: "flat_file_update ff st (Some kb) (Some vb) =
        Some (\<lparr>error = err_ok, count = int (length (matching_rows ff st (Some kb)))\<rparr>, st')"
    and rows: "\<And>j. j < num_rows ff st \<Longrightarrow> file_row ff st' j =
            (if key_matches ff st (Some kb) j
             then \<lparr>row_status = FLAT_FILE_STATUS_OCCUPIED, key = Some kb, val = Some vb\<rparr>
             else file_row ff st j)"
    by blast
  have m: "row_status (file_row ff st' j) = FLAT_FILE_STATUS_OCCUPIED
            \<and> row_key_bytes ff st' j = kb \<and> row_value_bytes ff st' j = vb
            \<and> (row_key_bytes ff st' j = row_key_bytes ff st j \<longleftrightarrow> row_key_bytes ff st j = kb)"
    if "j < num_rows ff st" "key_matches ff st (Some kb) j" for j
    using rows [OF that(1)] that(2) by (auto simp: kv)
  have o: "file_row ff st' j = file_row ff st j"
    if "j < num_rows ff st" "\<not> key_matches ff st (Some kb) j" for j
    using rows [OF that(1)] that(2) by simp
  have e: "row_key_bytes ff st' j = row_key_bytes ff st j"
    if exact: "\<forall>x. length x = key_size ff \<and> compare ff (Some kb) (Some x) (key_size ff) = 0
               \<longrightarrow> x = kb"
      and j: "j < num_rows ff st" for j
  proof (cases "key_matches ff st (Some kb) j")
    case True
    have "j * row_size ff + row_size ff \<le> num_rows ff st * row_size ff" using j by (rule rows_le)
    then have "j * row_size ff + 1 + key_size ff \<le> length (content (data_file st))"
      using len g(1) by simp
    then have l: "length (row_key_bytes ff st j) = key_size ff"
      by (simp add: row_key_bytes_def)
    have "compare ff (Some kb) (Some (row_key_bytes ff st j)) (key_size ff) = 0"
      using True by (simp add: key_matches_def file_row_def buffer_row_def Let_def row_key_bytes_def)
    with exact l have "row_key_bytes ff st j = kb" by blast
    with m [OF j True] show ?thesis by simp
  next
    case False
    from o [OF j False] show ?thesis by (simp add: kv)
  qed
  from u m o e show ?thesis by blast
qed

lemma ex_compare_exact:
  "\<forall>x. length x = key_size ff_ex \<and> compare ff_ex (Some [5]) (Some x) (key_size ff_ex) = 0
     \<longrightarrow> x = [5]"
  by (auto simp: ff_ex_def split: if_splits)

theorem update_rewrites_status_key_value_witness:
  "well_formed ff_ex st_ex \<and> fault_free st_ex \<and>
   1 \<le> key_size ff_ex \<and>
   length [5 :: byte] = key_size ff_ex \<and> length [3 :: byte] = value_size ff_ex \<and>
   matching_rows ff_ex st_ex (Some [5]) \<noteq> [] \<and>
   key_matches ff_ex st_ex (Some [5]) 2 \<and> \<not> key_matches ff_ex st_ex (Some [5]) 3 \<and>
   (\<exists>status st'. flat_file_update ff_ex st_ex (Some [5]) (Some [3]) = Some (status, st')
      \<and> row_status (file_row ff_ex st' 2) = FLAT_FILE_STATUS_OCCUPIED
      \<and> row_key_bytes ff_ex st' 2 = [5] \<and> row_value_bytes ff_ex st' 2 = [3]
      \<and> file_row ff_ex st' 3 = file_row ff_ex st_ex 3
      \<and> row_key_bytes ff_ex st' 0 = row_key_bytes ff_ex st_ex 0
      \<and> row_key_bytes ff_ex st' 2 = row_key_bytes ff_ex st_ex 2)"
proof -
  have l: "length [5 :: byte] = key_size ff_ex" "length [3 :: byte] = value_size ff_ex"
    by (simp_all add: ff_ex_def)
  have ne: "matching_rows ff_ex st_ex (Some [5]) \<noteq> []" by (simp add: ex_matching_rows)
  have ks: "1 \<le> key_size ff_ex" by (simp add: ff_ex_def)
  from update_rewrites_status_key_value [OF ex_store(1,2) ks l ne]
  have U: "\<exists>status st'. flat_file_update ff_ex st_ex (Some [5]) (Some [3]) = Some (status, st')
      \<and> row_status (file_row ff_ex st' 2) = FLAT_FILE_STATUS_OCCUPIED
      \<and> row_key_bytes ff_ex st' 2 = [5] \<and> row_value_bytes ff_ex st' 2 = [3]
      \<and> file_row ff_ex st' 3 = file_row ff_ex st_ex 3
      \<and> row_key_bytes ff_ex st' 0 = row_key_bytes ff_ex st_ex 0
      \<and> row_key_bytes ff_ex st' 2 = row_key_bytes ff_ex st_ex 2"
    using ex_key_matches(3,4) ex_compare_exact by (auto simp: ex_store)
  show ?thesis
    by (intro conjI U ex_store(1,2) ks l ne ex_key_matches(3,4))
qed

end
